theory Spec2Isabelle
  imports Complex_Main "HOL-Library.Product_Lexorder" "HOL-Library.Signed_Division"
begin

section \<open>Faults\<close>

text \<open>
  The C++ sources index fixed-size arrays and copy memory without bounds checks, and
  multiply 32-bit ints. Where the source would touch memory outside the array it indexes,
  or overflow a signed int, the behaviour is undefined; the model returns a fault there.
\<close>

datatype error = OutOfBounds | SignedOverflow

definition size_t_of :: "int \<Rightarrow> int" where
  \<comment> \<open>conversion to the 64-bit unsigned \<open>size_t\<close>\<close>
  "size_t_of x = x mod 2 ^ 64"

definition int_in_range :: "int \<Rightarrow> bool" where
  \<comment> \<open>the values of a 32-bit \<open>int\<close>\<close>
  "int_in_range x \<longleftrightarrow> - (2 ^ 31) \<le> x \<and> x < 2 ^ 31"

section \<open>Storage: records, blocks, heap file\<close>

subsection \<open>record.h\<close>

text \<open>
  \<open>struct Record\<close>: nine fixed-width fields, \<open>sizeof(Record) == 44\<close> (checked by the
  \<open>static_assert\<close> of the source). The float fields are only stored and copied by the
  storage layer.
\<close>

record Record =
  game_date :: string
  team_id_home :: int
  pts_home :: int
  fg_pct_home :: real
  ft_pct_home :: real
  fg3_pct_home :: real
  ast_home :: int
  reb_home :: int
  home_team_wins :: int

definition sizeof_Record :: int where
  "sizeof_Record = 44"

definition Record_empty :: Record where
  \<comment> \<open>\<open>Record()\<close>: \<open>memset(this, 0, sizeof(Record))\<close>\<close>
  "Record_empty = \<lparr> game_date = [], team_id_home = 0, pts_home = 0, fg_pct_home = 0,
     ft_pct_home = 0, fg3_pct_home = 0, ast_home = 0, reb_home = 0, home_team_wins = 0 \<rparr>"

subsection \<open>block.h\<close>

record BlockHeader =
  hdr_block_id :: int
  hdr_num_records :: int
  hdr_next_block :: int

definition BLOCK_SIZE :: int where
  "BLOCK_SIZE = 4096"

definition HEADER_SIZE :: int where
  \<comment> \<open>\<open>sizeof(BlockHeader)\<close>, 16 by the \<open>static_assert\<close> of the source\<close>
  "HEADER_SIZE = 16"

definition DATA_SIZE :: int where
  "DATA_SIZE = BLOCK_SIZE - HEADER_SIZE"

definition MAX_RECORDS :: int where
  "MAX_RECORDS = DATA_SIZE div sizeof_Record"

text \<open>
  \<open>char data[DATA_SIZE]\<close> is only ever accessed by \<open>memcpy\<close> of one \<open>Record\<close> at a byte
  offset that is a multiple of \<open>sizeof(Record)\<close>. The model keeps the contents per
  record-sized cell (cell \<open>i\<close> is the bytes \<open>[44 i, 44 i + 44)\<close>) and checks every copy
  against the byte bounds of the array.
\<close>

record Block =
  header :: BlockHeader
  data :: "nat \<Rightarrow> Record"

definition Block_new :: Block where
  \<comment> \<open>\<open>Block()\<close>: \<open>memset(this, 0, sizeof(Block))\<close> after the header's own constructor\<close>
  "Block_new = \<lparr> header = \<lparr> hdr_block_id = 0, hdr_num_records = 0, hdr_next_block = 0 \<rparr>,
     data = (\<lambda>_. Record_empty) \<rparr>"

definition memcpy_in :: "(nat \<Rightarrow> Record) \<Rightarrow> int \<Rightarrow> Record \<Rightarrow> error + (nat \<Rightarrow> Record)" where
  \<comment> \<open>\<open>memcpy(data + offset, &record, sizeof(Record))\<close>\<close>
  "memcpy_in d offset r =
     (if 0 \<le> offset \<and> offset + sizeof_Record \<le> DATA_SIZE
      then Inr (d(nat (offset div sizeof_Record) := r))
      else Inl OutOfBounds)"

definition memcpy_out :: "(nat \<Rightarrow> Record) \<Rightarrow> int \<Rightarrow> error + Record" where
  \<comment> \<open>\<open>memcpy(&record, data + offset, sizeof(Record))\<close>\<close>
  "memcpy_out d offset =
     (if 0 \<le> offset \<and> offset + sizeof_Record \<le> DATA_SIZE
      then Inr (d (nat (offset div sizeof_Record)))
      else Inl OutOfBounds)"

definition Block_addRecord :: "Block \<Rightarrow> Record \<Rightarrow> error + (bool \<times> Block)" where
  "Block_addRecord b record =
     (if hdr_num_records (header b) \<ge> MAX_RECORDS then Inr (False, b)
      else
        (let offset = size_t_of (hdr_num_records (header b) * sizeof_Record) in
         case memcpy_in (data b) offset record of
           Inl e \<Rightarrow> Inl e
         | Inr d \<Rightarrow>
             Inr (True, b\<lparr> data := d,
                    header := (header b)\<lparr> hdr_num_records := hdr_num_records (header b) + 1 \<rparr> \<rparr>)))"

definition Block_getRecord :: "Block \<Rightarrow> int \<Rightarrow> error + Record" where
  "Block_getRecord b index =
     (if index \<ge> hdr_num_records (header b) then Inr Record_empty
      else memcpy_out (data b) (size_t_of (index * sizeof_Record)))"

definition isFull :: "Block \<Rightarrow> bool" where
  "isFull b \<longleftrightarrow> hdr_num_records (header b) \<ge> MAX_RECORDS"

definition getNumRecords :: "Block \<Rightarrow> int" where
  "getNumRecords b = hdr_num_records (header b)"

subsection \<open>The heap file (class Database)\<close>

text \<open>
  The state of an open heap: the two header counters and the blocks of the file, by
  block id. A block can be read exactly when it has been written. The I/O tallies are
  write-only bookkeeping and are left out.
\<close>

record Database =
  num_blocks :: int
  num_records :: int
  blocks :: "int \<rightharpoonup> Block"

definition Database_new :: Database where
  \<comment> \<open>the constructor followed by \<open>open()\<close> on a path that does not exist yet\<close>
  "Database_new = \<lparr> num_blocks = 0, num_records = 0, blocks = Map.empty \<rparr>"

definition MAX_DATABASE_SIZE :: int where
  "MAX_DATABASE_SIZE = 100 * 1024 * 1024"

definition writeBlock :: "Database \<Rightarrow> int \<Rightarrow> Block \<Rightarrow> bool \<times> Database" where
  \<comment> \<open>\<open>seekp(8 + block_id * BLOCK_SIZE)\<close> fails on a negative position\<close>
  "writeBlock db block_id block =
     (if block_id < 0 then (False, db)
      else (True, db\<lparr> blocks := (blocks db)(block_id \<mapsto> block) \<rparr>))"

definition readBlock :: "Database \<Rightarrow> int \<Rightarrow> Block option" where
  "readBlock db block_id = (if block_id < 0 then None else blocks db block_id)"

definition addBlock :: "Database \<Rightarrow> Block \<Rightarrow> int \<times> Database" where
  "addBlock db block =
     (let block_id = num_blocks db in
      case writeBlock db block_id block of
        (True, db') \<Rightarrow> (block_id, db'\<lparr> num_blocks := num_blocks db' + 1 \<rparr>)
      | (False, db') \<Rightarrow> (-1, db'))"

definition addRecord_new_block :: "Database \<Rightarrow> Record \<Rightarrow> error + (bool \<times> Database)" where
  \<comment> \<open>steps 2 and 3 of \<open>Database::addRecord\<close>\<close>
  "addRecord_new_block db record =
     (if \<not> int_in_range (num_blocks db * BLOCK_SIZE) then Inl SignedOverflow
      else
        (let current_size = size_t_of (size_t_of (num_blocks db * BLOCK_SIZE) + 4 * 2) in
         if size_t_of (current_size + BLOCK_SIZE) > MAX_DATABASE_SIZE then Inr (False, db)
         else
           (let newBlock = Block_new\<lparr> header := (header Block_new)\<lparr> hdr_block_id := num_blocks db \<rparr> \<rparr> in
            case Block_addRecord newBlock record of
              Inl e \<Rightarrow> Inl e
            | Inr (_, newBlock') \<Rightarrow>
                (case addBlock db newBlock' of
                   (block_id, db') \<Rightarrow>
                     if block_id \<noteq> -1 then Inr (True, db'\<lparr> num_records := num_records db' + 1 \<rparr>)
                     else Inr (False, db')))))"

definition addRecord :: "Database \<Rightarrow> Record \<Rightarrow> error + (bool \<times> Database)" where
  "addRecord db record =
     (if num_blocks db > 0 then
        (case readBlock db (num_blocks db - 1) of
           Some currentBlock \<Rightarrow>
             if \<not> isFull currentBlock then
               (case Block_addRecord currentBlock record of
                  Inl e \<Rightarrow> Inl e
                | Inr (_, currentBlock') \<Rightarrow>
                    (case writeBlock db (num_blocks db - 1) currentBlock' of
                       (_, db') \<Rightarrow> Inr (True, db'\<lparr> num_records := num_records db' + 1 \<rparr>)))
             else addRecord_new_block db record
         | None \<Rightarrow> addRecord_new_block db record)
      else addRecord_new_block db record)"

definition getRecord :: "Database \<Rightarrow> int \<Rightarrow> int \<Rightarrow> error + Record" where
  "getRecord db block_id record_index =
     (case readBlock db block_id of
        Some block \<Rightarrow> Block_getRecord block record_index
      | None \<Rightarrow> Inr Record_empty)"

definition deleteRecord :: "Database \<Rightarrow> int \<Rightarrow> int \<Rightarrow> error + (bool \<times> Database)" where
  "deleteRecord db block_id record_index =
     (case readBlock db block_id of
        Some block \<Rightarrow>
          (let offset = size_t_of (record_index * sizeof_Record) in
           case memcpy_in (data block) offset Record_empty of
             Inl e \<Rightarrow> Inl e
           | Inr d \<Rightarrow> Inr (writeBlock db block_id (block\<lparr> data := d \<rparr>)))
      | None \<Rightarrow> Inr (False, db))"

text \<open>
  The loading loop of \<open>task1_storage_component\<close>:
  \<open>for (const Record& record : records) db.addRecord(record);\<close>
  (the boolean result is dropped there).
\<close>

fun add_records :: "Database \<Rightarrow> Record list \<Rightarrow> error + Database" where
  "add_records db [] = Inr db"
| "add_records db (record # records) =
     (case addRecord db record of
        Inl e \<Rightarrow> Inl e
      | Inr (_, db') \<Rightarrow> add_records db' records)"

subsection \<open>Heap states used as examples\<close>

text \<open>
  \<open>packed recs b\<close>: block \<open>b\<close> holds exactly the records \<open>recs\<close>, densely from slot 0.
  \<open>full_heap\<close> is a heap at its capacity of 25599 full blocks; \<open>two_record_heap\<close> is
  one block with two games.
\<close>

definition packed :: "Record list \<Rightarrow> Block \<Rightarrow> bool" where
  "packed recs b \<longleftrightarrow> hdr_num_records (header b) = int (length recs) \<and> (\<forall>i<length recs. data b i = recs ! i)"

definition full_heap :: Database where
  "full_heap = \<lparr> num_blocks = 25599, num_records = 2355108,
     blocks = (\<lambda>i. if 0 \<le> i \<and> i < 25599
        then Some \<lparr> header = \<lparr> hdr_block_id = i, hdr_num_records = 92, hdr_next_block = 0 \<rparr>,
                    data = (\<lambda>_. Record_empty) \<rparr>
        else None) \<rparr>"

definition two_record_heap :: Database where
  "two_record_heap = \<lparr> num_blocks = 1, num_records = 2,
     blocks = [0 \<mapsto> \<lparr> header = \<lparr> hdr_block_id = 0, hdr_num_records = 2, hdr_next_block = 0 \<rparr>,
        data = (\<lambda>_. Record_empty)
          (0 := Record_empty\<lparr> game_date := ''22/12/2022'', team_id_home := 1610612740, ft_pct_home := 0.926 \<rparr>,
           1 := Record_empty\<lparr> game_date := ''21/12/2022'', team_id_home := 1610612762, ft_pct_home := 0.952 \<rparr>) \<rparr>] \<rparr>"


section \<open>Index: B+ tree\<close>

text \<open>
  The functions of \<open>class BPTree\<close> are modelled as in \<open>bptree.cpp\<close>. The implementation
  that follows the class in \<open>bptree.h\<close> has the same text for every function modelled
  here except \<open>handleUnderflow\<close> and \<open>removeRange\<close>; \<open>removeRange\<close> is modelled in both
  forms. The state is that of an open index file. A function that contains a loop without
  a bound returns an \<open>option\<close>, \<open>None\<close> standing for a run that does not end.
\<close>

subsection \<open>record_pointer.h\<close>

datatype RecordPointer = RecordPointer (block_id: int) (record_index: int)

definition encode_ptr :: "RecordPointer \<Rightarrow> error + int" where
  \<comment> \<open>\<open>ptr.block_id * 10000 + ptr.record_index\<close>, in \<open>int\<close>\<close>
  "encode_ptr ptr =
     (if int_in_range (block_id ptr * 10000) \<and> int_in_range (block_id ptr * 10000 + record_index ptr)
      then Inr (block_id ptr * 10000 + record_index ptr)
      else Inl SignedOverflow)"

definition decode_ptr :: "int \<Rightarrow> RecordPointer" where
  \<comment> \<open>\<open>RecordPointer(encoded_ptr / 10000, encoded_ptr % 10000)\<close>; C++ division truncates\<close>
  "decode_ptr encoded_ptr = RecordPointer (encoded_ptr sdiv 10000) (encoded_ptr smod 10000)"

subsection \<open>struct BPTreeNode\<close>

definition MAX_KEYS :: nat where
  "MAX_KEYS = 101"

text \<open>
  \<open>float keys[MAX_KEYS]\<close> and \<open>int children[MAX_KEYS + 1]\<close> are functions from the slot
  number; every access goes through the four checked accessors below. The key type is
  any linear order with a zero: the tree only compares keys and default-initialises them
  to \<open>0.0f\<close>.
\<close>

record 'k BPTreeNode =
  is_leaf :: bool
  num_keys :: nat
  keys :: "nat \<Rightarrow> 'k"
  children :: "nat \<Rightarrow> int"
  next_leaf :: int
  parent :: int

definition BPTreeNode_new :: "'k::zero BPTreeNode" where
  "BPTreeNode_new = \<lparr> is_leaf = True, num_keys = 0, keys = (\<lambda>_. 0), children = (\<lambda>_. - 1),
     next_leaf = - 1, parent = - 1 \<rparr>"

definition get_key :: "'k BPTreeNode \<Rightarrow> nat \<Rightarrow> error + 'k" where
  "get_key node i = (if i < MAX_KEYS then Inr (keys node i) else Inl OutOfBounds)"

definition set_key :: "'k BPTreeNode \<Rightarrow> nat \<Rightarrow> 'k \<Rightarrow> error + 'k BPTreeNode" where
  "set_key node i k =
     (if i < MAX_KEYS then Inr (node\<lparr> keys := (keys node)(i := k) \<rparr>) else Inl OutOfBounds)"

definition get_child :: "'k BPTreeNode \<Rightarrow> nat \<Rightarrow> error + int" where
  "get_child node i = (if i < MAX_KEYS + 1 then Inr (children node i) else Inl OutOfBounds)"

definition set_child :: "'k BPTreeNode \<Rightarrow> nat \<Rightarrow> int \<Rightarrow> error + 'k BPTreeNode" where
  "set_child node i c =
     (if i < MAX_KEYS + 1 then Inr (node\<lparr> children := (children node)(i := c) \<rparr>) else Inl OutOfBounds)"

subsection \<open>class BPTree: file and nodes\<close>

text \<open>
  The node pages of the file by node id. A node can be read exactly when it has been
  written; a seek to a negative position fails, so no node has a negative id. The I/O
  tallies are left out, as for the heap.
\<close>

record 'k BPTree =
  root_id :: int
  next_node_id :: int
  nodes :: "int \<rightharpoonup> 'k BPTreeNode"

definition order :: nat where
  \<comment> \<open>set by the constructor\<close>
  "order = (if MAX_KEYS < 3 then 3 else MAX_KEYS)"

definition BPTree_new :: "'k BPTree" where
  "BPTree_new = \<lparr> root_id = - 1, next_node_id = 0, nodes = Map.empty \<rparr>"

definition writeNode :: "'k BPTree \<Rightarrow> int \<Rightarrow> 'k BPTreeNode \<Rightarrow> bool \<times> 'k BPTree" where
  "writeNode t node_id node =
     (if node_id < 0 then (False, t)
      else (True, t\<lparr> nodes := (nodes t)(node_id \<mapsto> node) \<rparr>))"

definition readNode :: "'k BPTree \<Rightarrow> int \<Rightarrow> 'k BPTreeNode option" where
  "readNode t node_id = (if node_id < 0 then None else nodes t node_id)"

definition createNode :: "'k BPTree \<Rightarrow> 'k BPTreeNode \<Rightarrow> int \<times> 'k BPTree" where
  "createNode t node =
     (let node_id = next_node_id t;
          t1 = t\<lparr> next_node_id := next_node_id t + 1 \<rparr>
      in case writeNode t1 node_id node of
           (True, t2) \<Rightarrow> (node_id, t2)
         | (False, t2) \<Rightarrow> (- 1, t2))"

definition BPTree_open_new :: "'k::zero BPTree" where
  \<comment> \<open>\<open>open()\<close> on a path that does not exist yet: an empty leaf becomes the root\<close>
  "BPTree_open_new =
     (case createNode BPTree_new BPTreeNode_new of (node_id, t) \<Rightarrow> t\<lparr> root_id := node_id \<rparr>)"

subsection \<open>Descent\<close>

function child_index :: "'k::linorder BPTreeNode \<Rightarrow> 'k \<Rightarrow> nat \<Rightarrow> error + nat" where
  "child_index node key i =
     (if i < num_keys node then
        (case get_key node i of
           Inl e \<Rightarrow> Inl e
         | Inr k \<Rightarrow> if key \<ge> k then child_index node key (Suc i) else Inr i)
      else Inr i)"
  by pat_completeness auto
termination
  by (relation "measure (\<lambda>(node, key, i). num_keys node - i)") auto

partial_function (option) findLeaf_loop :: "'k::linorder BPTree \<Rightarrow> 'k \<Rightarrow> int \<Rightarrow> (error + int) option" where
  "findLeaf_loop t key current =
     (case readNode t current of
        None \<Rightarrow> Some (Inr (- 1))
      | Some node \<Rightarrow>
          if is_leaf node then Some (Inr current)
          else
            (case child_index node key 0 of
               Inl e \<Rightarrow> Some (Inl e)
             | Inr i \<Rightarrow>
                 (case get_child node i of
                    Inl e \<Rightarrow> Some (Inl e)
                  | Inr c \<Rightarrow> findLeaf_loop t key c)))"

definition findLeaf :: "'k::linorder BPTree \<Rightarrow> 'k \<Rightarrow> (error + int) option" where
  "findLeaf t key = (if root_id t = - 1 then Some (Inr (- 1)) else findLeaf_loop t key (root_id t))"

subsection \<open>Insertion\<close>

function insert_pos :: "'k::linorder BPTreeNode \<Rightarrow> 'k \<Rightarrow> nat \<Rightarrow> error + nat" where
  \<comment> \<open>\<open>while (i < leaf.num_keys && leaf.keys[i] < key) i++;\<close>\<close>
  "insert_pos leaf key i =
     (if i < num_keys leaf then
        (case get_key leaf i of
           Inl e \<Rightarrow> Inl e
         | Inr k \<Rightarrow> if k < key then insert_pos leaf key (Suc i) else Inr i)
      else Inr i)"
  by pat_completeness auto
termination
  by (relation "measure (\<lambda>(leaf, key, i). num_keys leaf - i)") auto

function shift_leaf_right :: "'k BPTreeNode \<Rightarrow> nat \<Rightarrow> nat \<Rightarrow> error + 'k BPTreeNode" where
  \<comment> \<open>\<open>for (int j = ...; j > i; j--) { keys[j] = keys[j-1]; children[j] = children[j-1]; }\<close>\<close>
  "shift_leaf_right leaf j i =
     (if j > i then
        (case get_key leaf (j - 1) of
           Inl e \<Rightarrow> Inl e
         | Inr k \<Rightarrow>
             (case set_key leaf j k of
                Inl e \<Rightarrow> Inl e
              | Inr leaf1 \<Rightarrow>
                  (case get_child leaf1 (j - 1) of
                     Inl e \<Rightarrow> Inl e
                   | Inr c \<Rightarrow>
                       (case set_child leaf1 j c of
                          Inl e \<Rightarrow> Inl e
                        | Inr leaf2 \<Rightarrow> shift_leaf_right leaf2 (j - 1) i))))
      else Inr leaf)"
  by pat_completeness auto
termination
  by (relation "measure (\<lambda>(leaf, j, i). j)") auto

definition insertIntoLeaf :: "'k::linorder BPTree \<Rightarrow> int \<Rightarrow> 'k \<Rightarrow> RecordPointer \<Rightarrow> error + 'k BPTree" where
  "insertIntoLeaf t leaf_id key ptr =
     (case readNode t leaf_id of
        None \<Rightarrow> Inr t
      | Some leaf \<Rightarrow>
          (case insert_pos leaf key 0 of
             Inl e \<Rightarrow> Inl e
           | Inr i \<Rightarrow>
               (case shift_leaf_right leaf (num_keys leaf) i of
                  Inl e \<Rightarrow> Inl e
                | Inr leaf1 \<Rightarrow>
                    (case set_key leaf1 i key of
                       Inl e \<Rightarrow> Inl e
                     | Inr leaf2 \<Rightarrow>
                         (case encode_ptr ptr of
                            Inl e \<Rightarrow> Inl e
                          | Inr c \<Rightarrow>
                              (case set_child leaf2 i c of
                                 Inl e \<Rightarrow> Inl e
                               | Inr leaf3 \<Rightarrow>
                                   Inr (snd (writeNode t leaf_id
                                     (leaf3\<lparr> num_keys := num_keys leaf3 + 1 \<rparr>)))))))))"

function move_upper :: "'k BPTreeNode \<Rightarrow> nat \<Rightarrow> 'k BPTreeNode \<Rightarrow> error + 'k BPTreeNode" where
  \<comment> \<open>the redistribution loop of both splits:
      \<open>for (; i < node.num_keys; i++) { n.keys[n.num_keys] = node.keys[i];
         n.children[n.num_keys] = node.children[i]; n.num_keys++; }\<close>\<close>
  "move_upper node i new_node =
     (if i < num_keys node then
        (case get_key node i of
           Inl e \<Rightarrow> Inl e
         | Inr k \<Rightarrow>
             (case set_key new_node (num_keys new_node) k of
                Inl e \<Rightarrow> Inl e
              | Inr n1 \<Rightarrow>
                  (case get_child node i of
                     Inl e \<Rightarrow> Inl e
                   | Inr c \<Rightarrow>
                       (case set_child n1 (num_keys n1) c of
                          Inl e \<Rightarrow> Inl e
                        | Inr n2 \<Rightarrow> move_upper node (Suc i) (n2\<lparr> num_keys := num_keys n2 + 1 \<rparr>)))))
      else Inr new_node)"
  by pat_completeness auto
termination
  by (relation "measure (\<lambda>(node, i, new_node). num_keys node - i)") auto

function parent_slot :: "'k BPTreeNode \<Rightarrow> int \<Rightarrow> nat \<Rightarrow> error + nat" where
  \<comment> \<open>\<open>while (i < parent.num_keys && parent.children[i] != left_id) i++;\<close>\<close>
  "parent_slot p left_id i =
     (if i < num_keys p then
        (case get_child p i of
           Inl e \<Rightarrow> Inl e
         | Inr c \<Rightarrow> if c \<noteq> left_id then parent_slot p left_id (Suc i) else Inr i)
      else Inr i)"
  by pat_completeness auto
termination
  by (relation "measure (\<lambda>(p, left_id, i). num_keys p - i)") auto

function shift_internal_right :: "'k BPTreeNode \<Rightarrow> nat \<Rightarrow> nat \<Rightarrow> error + 'k BPTreeNode" where
  \<comment> \<open>\<open>for (int j = ...; j > i; j--) { keys[j] = keys[j-1]; children[j+1] = children[j]; }\<close>\<close>
  "shift_internal_right p j i =
     (if j > i then
        (case get_key p (j - 1) of
           Inl e \<Rightarrow> Inl e
         | Inr k \<Rightarrow>
             (case set_key p j k of
                Inl e \<Rightarrow> Inl e
              | Inr p1 \<Rightarrow>
                  (case get_child p1 j of
                     Inl e \<Rightarrow> Inl e
                   | Inr c \<Rightarrow>
                       (case set_child p1 (j + 1) c of
                          Inl e \<Rightarrow> Inl e
                        | Inr p2 \<Rightarrow> shift_internal_right p2 (j - 1) i))))
      else Inr p)"
  by pat_completeness auto
termination
  by (relation "measure (\<lambda>(p, j, i). j)") auto

definition new_root_for :: "'k::zero BPTree \<Rightarrow> int \<Rightarrow> 'k \<Rightarrow> int \<Rightarrow> error + 'k BPTree" where
  \<comment> \<open>the branch \<open>root_id == left_id\<close> of \<open>insertIntoParent\<close>\<close>
  "new_root_for t left_id key right_id =
     (case set_key (BPTreeNode_new\<lparr> is_leaf := False \<rparr>) 0 key of
        Inl e \<Rightarrow> Inl e
      | Inr r1 \<Rightarrow>
          (case set_child r1 0 left_id of
             Inl e \<Rightarrow> Inl e
           | Inr r2 \<Rightarrow>
               (case set_child r2 1 right_id of
                  Inl e \<Rightarrow> Inl e
                | Inr r3 \<Rightarrow>
                    (case createNode t (r3\<lparr> num_keys := 1 \<rparr>) of
                       (new_id, t1) \<Rightarrow>
                         (let t2 = t1\<lparr> root_id := new_id \<rparr>;
                              left_node = (case readNode t2 left_id of Some n \<Rightarrow> n | None \<Rightarrow> BPTreeNode_new);
                              right_node = (case readNode t2 right_id of Some n \<Rightarrow> n | None \<Rightarrow> BPTreeNode_new);
                              t3 = snd (writeNode t2 left_id (left_node\<lparr> parent := root_id t2 \<rparr>));
                              t4 = snd (writeNode t3 right_id (right_node\<lparr> parent := root_id t2 \<rparr>))
                          in Inr t4)))))"

definition add_to_parent ::
  "'k::zero BPTree \<Rightarrow> int \<Rightarrow> 'k \<Rightarrow> int \<Rightarrow> error + ('k BPTree \<times> int \<times> nat)" where
  \<comment> \<open>the other branch of \<open>insertIntoParent\<close>, up to the test \<open>parent.num_keys > order\<close>;
      returns the tree, the parent's id and its new key count\<close>
  "add_to_parent t left_id key right_id =
     (let p0 = (case readNode t left_id of Some n \<Rightarrow> n | None \<Rightarrow> BPTreeNode_new);
          parent_id = parent p0;
          p1 = (case readNode t parent_id of Some n \<Rightarrow> n | None \<Rightarrow> p0)
      in case parent_slot p1 left_id 0 of
           Inl e \<Rightarrow> Inl e
         | Inr i \<Rightarrow>
             (case shift_internal_right p1 (num_keys p1) i of
                Inl e \<Rightarrow> Inl e
              | Inr p2 \<Rightarrow>
                  (case set_key p2 i key of
                     Inl e \<Rightarrow> Inl e
                   | Inr p3 \<Rightarrow>
                       (case set_child p3 (i + 1) right_id of
                          Inl e \<Rightarrow> Inl e
                        | Inr p4 \<Rightarrow>
                            (let p5 = p4\<lparr> num_keys := num_keys p4 + 1 \<rparr>
                             in Inr (snd (writeNode t parent_id p5), parent_id, num_keys p5))))))"

definition split_internal_nodes ::
  "'k::zero BPTree \<Rightarrow> int \<Rightarrow> error + ('k BPTree \<times> ('k \<times> int) option)" where
  \<comment> \<open>\<open>splitInternal\<close> up to its final call \<open>insertIntoParent(node_id, promote_key, new_node_id)\<close>;
      \<open>None\<close> when the node cannot be read and the function returns at once\<close>
  "split_internal_nodes t node_id =
     (case readNode t node_id of
        None \<Rightarrow> Inr (t, None)
      | Some node \<Rightarrow>
          (let new_node = BPTreeNode_new\<lparr> is_leaf := False, parent := parent node \<rparr> in
           case createNode t new_node of
             (new_node_id, t1) \<Rightarrow>
               (let mid = num_keys node div 2 in
                case get_key node mid of
                  Inl e \<Rightarrow> Inl e
                | Inr promote_key \<Rightarrow>
                    (case move_upper node (mid + 1) new_node of
                       Inl e \<Rightarrow> Inl e
                     | Inr n1 \<Rightarrow>
                         (case get_child node (num_keys node) of
                            Inl e \<Rightarrow> Inl e
                          | Inr c \<Rightarrow>
                              (case set_child n1 (num_keys n1) c of
                                 Inl e \<Rightarrow> Inl e
                               | Inr n2 \<Rightarrow>
                                   (let t2 = snd (writeNode t1 node_id (node\<lparr> num_keys := mid \<rparr>));
                                        t3 = snd (writeNode t2 new_node_id n2)
                                    in Inr (t3, Some (promote_key, new_node_id)))))))))"

partial_function (option) insertIntoParent ::
  "'k::zero BPTree \<Rightarrow> int \<Rightarrow> 'k \<Rightarrow> int \<Rightarrow> (error + 'k BPTree) option" where
  "insertIntoParent t left_id key right_id =
     (if root_id t = left_id then Some (new_root_for t left_id key right_id)
      else
        (case add_to_parent t left_id key right_id of
           Inl e \<Rightarrow> Some (Inl e)
         | Inr (t1, parent_id, n) \<Rightarrow>
             if n > order then
               (case split_internal_nodes t1 parent_id of
                  Inl e \<Rightarrow> Some (Inl e)
                | Inr (t2, None) \<Rightarrow> Some (Inr t2)
                | Inr (t2, Some (promote_key, new_node_id)) \<Rightarrow>
                    insertIntoParent t2 parent_id promote_key new_node_id)
             else Some (Inr t1)))"

definition splitInternal :: "'k::zero BPTree \<Rightarrow> int \<Rightarrow> (error + 'k BPTree) option" where
  "splitInternal t node_id =
     (case split_internal_nodes t node_id of
        Inl e \<Rightarrow> Some (Inl e)
      | Inr (t2, None) \<Rightarrow> Some (Inr t2)
      | Inr (t2, Some (promote_key, new_node_id)) \<Rightarrow>
          insertIntoParent t2 node_id promote_key new_node_id)"

definition splitLeaf :: "'k::zero BPTree \<Rightarrow> int \<Rightarrow> (error + 'k BPTree) option" where
  "splitLeaf t leaf_id =
     (case readNode t leaf_id of
        None \<Rightarrow> Some (Inr t)
      | Some leaf \<Rightarrow>
          (let new_leaf = BPTreeNode_new\<lparr> is_leaf := True, next_leaf := next_leaf leaf, parent := parent leaf \<rparr> in
           case createNode t new_leaf of
             (new_leaf_id, t1) \<Rightarrow>
               (let leaf1 = leaf\<lparr> next_leaf := new_leaf_id \<rparr>;
                    mid = num_keys leaf1 div 2
                in case move_upper leaf1 mid new_leaf of
                     Inl e \<Rightarrow> Some (Inl e)
                   | Inr new_leaf1 \<Rightarrow>
                       (let t2 = snd (writeNode t1 leaf_id (leaf1\<lparr> num_keys := mid \<rparr>));
                            t3 = snd (writeNode t2 new_leaf_id new_leaf1)
                        in case get_key new_leaf1 0 of
                             Inl e \<Rightarrow> Some (Inl e)
                           | Inr promote_key \<Rightarrow> insertIntoParent t3 leaf_id promote_key new_leaf_id))))"

definition BPTree_insert ::
  "'k::{linorder,zero} BPTree \<Rightarrow> 'k \<Rightarrow> RecordPointer \<Rightarrow> (error + (bool \<times> 'k BPTree)) option" where
  "BPTree_insert t key ptr =
     (if root_id t = - 1 then
        (case set_key (BPTreeNode_new\<lparr> is_leaf := True \<rparr>) 0 key of
           Inl e \<Rightarrow> Some (Inl e)
         | Inr r1 \<Rightarrow>
             (case encode_ptr ptr of
                Inl e \<Rightarrow> Some (Inl e)
              | Inr c \<Rightarrow>
                  (case set_child r1 0 c of
                     Inl e \<Rightarrow> Some (Inl e)
                   | Inr r2 \<Rightarrow>
                       (case createNode t (r2\<lparr> num_keys := 1 \<rparr>) of
                          (new_id, t1) \<Rightarrow> Some (Inr (True, t1\<lparr> root_id := new_id \<rparr>))))))
      else
        (case findLeaf t key of
           None \<Rightarrow> None
         | Some (Inl e) \<Rightarrow> Some (Inl e)
         | Some (Inr leaf_id) \<Rightarrow>
             if leaf_id = - 1 then Some (Inr (False, t))
             else
               (case readNode t leaf_id of
                  None \<Rightarrow> Some (Inr (False, t))
                | Some leaf \<Rightarrow>
                    if num_keys leaf < order then
                      (case insertIntoLeaf t leaf_id key ptr of
                         Inl e \<Rightarrow> Some (Inl e)
                       | Inr t1 \<Rightarrow> Some (Inr (True, t1)))
                    else
                      (case insertIntoLeaf t leaf_id key ptr of
                         Inl e \<Rightarrow> Some (Inl e)
                       | Inr t1 \<Rightarrow>
                           (case splitLeaf t1 leaf_id of
                              None \<Rightarrow> None
                            | Some (Inl e) \<Rightarrow> Some (Inl e)
                            | Some (Inr t2) \<Rightarrow> Some (Inr (True, t2)))))))"

subsection \<open>Search\<close>

function collect_equal ::
  "'k BPTreeNode \<Rightarrow> 'k \<Rightarrow> nat \<Rightarrow> RecordPointer list \<Rightarrow> error + RecordPointer list" where
  \<comment> \<open>the leaf loop of \<open>search\<close>\<close>
  "collect_equal leaf key i results =
     (if i < num_keys leaf then
        (case get_key leaf i of
           Inl e \<Rightarrow> Inl e
         | Inr k \<Rightarrow>
             if k = key then
               (case get_child leaf i of
                  Inl e \<Rightarrow> Inl e
                | Inr c \<Rightarrow> collect_equal leaf key (Suc i) (results @ [decode_ptr c]))
             else collect_equal leaf key (Suc i) results)
      else Inr results)"
  by pat_completeness auto
termination
  by (relation "measure (\<lambda>(leaf, key, i, results). num_keys leaf - i)") auto

definition BPTree_search :: "'k::linorder BPTree \<Rightarrow> 'k \<Rightarrow> (error + RecordPointer list) option" where
  "BPTree_search t key =
     (case findLeaf t key of
        None \<Rightarrow> None
      | Some (Inl e) \<Rightarrow> Some (Inl e)
      | Some (Inr leaf_id) \<Rightarrow>
          if leaf_id = - 1 then Some (Inr [])
          else
            (case readNode t leaf_id of
               None \<Rightarrow> Some (Inr [])
             | Some leaf \<Rightarrow> Some (collect_equal leaf key 0 [])))"

function collect_in_range ::
  "'k::linorder BPTreeNode \<Rightarrow> 'k \<Rightarrow> 'k \<Rightarrow> nat \<Rightarrow> RecordPointer list \<Rightarrow> error + RecordPointer list" where
  \<comment> \<open>the leaf loop of \<open>rangeSearch\<close>\<close>
  "collect_in_range leaf min_key max_key i results =
     (if i < num_keys leaf then
        (case get_key leaf i of
           Inl e \<Rightarrow> Inl e
         | Inr k \<Rightarrow>
             if k \<ge> min_key \<and> k \<le> max_key then
               (case get_child leaf i of
                  Inl e \<Rightarrow> Inl e
                | Inr c \<Rightarrow> collect_in_range leaf min_key max_key (Suc i) (results @ [decode_ptr c]))
             else collect_in_range leaf min_key max_key (Suc i) results)
      else Inr results)"
  by pat_completeness auto
termination
  by (relation "measure (\<lambda>(leaf, min_key, max_key, i, results). num_keys leaf - i)") auto

definition last_key :: "'k BPTreeNode \<Rightarrow> error + 'k" where
  \<comment> \<open>\<open>leaf.keys[leaf.num_keys - 1]\<close>; the index is -1 on a leaf without keys\<close>
  "last_key leaf = (if num_keys leaf = 0 then Inl OutOfBounds else get_key leaf (num_keys leaf - 1))"

partial_function (option) rangeSearch_loop ::
  "'k::linorder BPTree \<Rightarrow> 'k \<Rightarrow> 'k \<Rightarrow> int \<Rightarrow> RecordPointer list \<Rightarrow> (error + RecordPointer list) option" where
  "rangeSearch_loop t min_key max_key leaf_id results =
     (if leaf_id \<noteq> - 1 then
        (case readNode t leaf_id of
           None \<Rightarrow> Some (Inr results)
         | Some leaf \<Rightarrow>
             (case collect_in_range leaf min_key max_key 0 results of
                Inl e \<Rightarrow> Some (Inl e)
              | Inr results1 \<Rightarrow>
                  (case last_key leaf of
                     Inl e \<Rightarrow> Some (Inl e)
                   | Inr k \<Rightarrow>
                       if k > max_key then Some (Inr results1)
                       else rangeSearch_loop t min_key max_key (next_leaf leaf) results1)))
      else Some (Inr results))"

definition rangeSearch :: "'k::linorder BPTree \<Rightarrow> 'k \<Rightarrow> 'k \<Rightarrow> (error + RecordPointer list) option" where
  "rangeSearch t min_key max_key =
     (case findLeaf t min_key of
        None \<Rightarrow> None
      | Some (Inl e) \<Rightarrow> Some (Inl e)
      | Some (Inr leaf_id) \<Rightarrow>
          if leaf_id = - 1 then Some (Inr [])
          else rangeSearch_loop t min_key max_key leaf_id [])"

subsection \<open>Bulk load\<close>

definition sort_entries :: "('k::linorder \<times> RecordPointer) list \<Rightarrow> ('k \<times> RecordPointer) list" where
  \<comment> \<open>\<open>std::sort\<close> with the ordering of \<open>std::pair<float, RecordPointer>\<close>: by key, then
      by block, then by slot. Entries that compare equal are identical, so the sorted
      sequence is unique.\<close>
  "sort_entries entries = sort_key (\<lambda>(k, p). (k, block_id p, record_index p)) entries"

fun fill_leaves ::
  "('k::zero \<times> RecordPointer) list \<Rightarrow> nat \<Rightarrow> int \<Rightarrow> 'k BPTreeNode \<Rightarrow> int list \<Rightarrow> 'k BPTree
     \<Rightarrow> error + (int \<times> 'k BPTreeNode \<times> int list \<times> 'k BPTree)" where
  \<comment> \<open>step 2, the loop over \<open>sorted_data\<close> from position \<open>i\<close> on\<close>
  "fill_leaves [] i current_leaf leaf leaf_nodes t = Inr (current_leaf, leaf, leaf_nodes, t)"
| "fill_leaves ((k, p) # rest) i current_leaf leaf leaf_nodes t =
     (case
        (if i mod order = 0 then
           (case (if current_leaf \<noteq> - 1
                  then (snd (writeNode t current_leaf leaf), leaf_nodes @ [current_leaf])
                  else (t, leaf_nodes)) of
              (t1, leaf_nodes1) \<Rightarrow>
                (case createNode t1 (BPTreeNode_new\<lparr> is_leaf := True \<rparr>) of
                   (new_id, t2) \<Rightarrow> (new_id, BPTreeNode_new\<lparr> is_leaf := True \<rparr>, leaf_nodes1, t2)))
         else (current_leaf, leaf, leaf_nodes, t)) of
        (current_leaf1, leaf1, leaf_nodes1, t1) \<Rightarrow>
          (case set_key leaf1 (num_keys leaf1) k of
             Inl e \<Rightarrow> Inl e
           | Inr leaf2 \<Rightarrow>
               (case encode_ptr p of
                  Inl e \<Rightarrow> Inl e
                | Inr c \<Rightarrow>
                    (case set_child leaf2 (num_keys leaf2) c of
                       Inl e \<Rightarrow> Inl e
                     | Inr leaf3 \<Rightarrow>
                         fill_leaves rest (Suc i) current_leaf1
                           (leaf3\<lparr> num_keys := num_keys leaf3 + 1 \<rparr>) leaf_nodes1 t1))))"

fun link_leaves :: "'k::zero BPTree \<Rightarrow> int list \<Rightarrow> 'k BPTree" where
  \<comment> \<open>\<open>for (i = 0; i < leaf_nodes.size() - 1; i++)\<close>: each leaf gets the id of the next\<close>
  "link_leaves t (a # b # rest) =
     (let leaf_node = (case readNode t a of Some n \<Rightarrow> n | None \<Rightarrow> BPTreeNode_new)
      in link_leaves (snd (writeNode t a (leaf_node\<lparr> next_leaf := b \<rparr>))) (b # rest))"
| "link_leaves t _ = t"

fun fill_internal :: "'k::zero BPTree \<Rightarrow> int list \<Rightarrow> nat \<Rightarrow> 'k BPTreeNode \<Rightarrow> error + 'k BPTreeNode" where
  \<comment> \<open>the loop \<open>for (int j = i; j < end; j++)\<close> over one group of children; the third
      argument is \<open>j - i\<close>\<close>
  "fill_internal t [] d internal = Inr internal"
| "fill_internal t (c # rest) d internal =
     (case set_child internal d c of
        Inl e \<Rightarrow> Inl e
      | Inr n1 \<Rightarrow>
          (case rest of
             [] \<Rightarrow> fill_internal t rest (Suc d) n1
           | c' # _ \<Rightarrow>
               (let next_node = (case readNode t c' of Some n \<Rightarrow> n | None \<Rightarrow> BPTreeNode_new) in
                case get_key next_node 0 of
                  Inl e \<Rightarrow> Inl e
                | Inr k \<Rightarrow>
                    (case set_key n1 (num_keys n1) k of
                       Inl e \<Rightarrow> Inl e
                     | Inr n2 \<Rightarrow> fill_internal t rest (Suc d) (n2\<lparr> num_keys := num_keys n2 + 1 \<rparr>)))))"

function build_level :: "'k::zero BPTree \<Rightarrow> int list \<Rightarrow> int list \<Rightarrow> error + (int list \<times> 'k BPTree)" where
  \<comment> \<open>the loop \<open>for (i = 0; i < leaf_nodes.size(); i += order)\<close>; the second argument is
      the part of \<open>leaf_nodes\<close> from \<open>i\<close> on\<close>
  "build_level t remaining internal_nodes =
     (if remaining = [] then Inr (internal_nodes, t)
      else
        (case fill_internal t (take order remaining) 0 (BPTreeNode_new\<lparr> is_leaf := False \<rparr>) of
           Inl e \<Rightarrow> Inl e
         | Inr internal \<Rightarrow>
             (case createNode t internal of
                (internal_id, t1) \<Rightarrow> build_level t1 (drop order remaining) (internal_nodes @ [internal_id]))))"
  by pat_completeness auto
termination
  by (relation "measure (\<lambda>(t, remaining, internal_nodes). length remaining)") (auto simp: order_def)

lemma ceil_div_step:
  assumes "0 < (n::nat)"
  shows "Suc ((n - 101 + 100) div 101) = (n + 100) div 101"
proof (cases "n \<le> 101")
  case True
  then have "(n + 100) div 101 = 1"
    using assms by (intro div_nat_eqI) simp_all
  moreover have "(n - 101 + 100) div 101 = 0"
    using True by simp
  ultimately show ?thesis
    by simp
next
  case False
  then have "n + 100 = (n - 101 + 100) + 101"
    by simp
  moreover have "((n - 101 + 100) + 101) div 101 = Suc ((n - 101 + 100) div 101)"
    by simp
  ultimately show ?thesis
    by simp
qed

lemma build_level_length:
  "build_level t remaining internal_nodes = Inr (result, t') \<Longrightarrow>
     length result = length internal_nodes + (length remaining + (order - 1)) div order"
proof (induction t remaining internal_nodes rule: build_level.induct)
  case (1 t remaining internal_nodes)
  show ?case
  proof (cases "remaining = []")
    case True
    with "1.prems" show ?thesis
      by (simp add: order_def MAX_KEYS_def)
  next
    case False
    from "1.prems" False obtain internal internal_id t1
      where f: "fill_internal t (take order remaining) 0 (BPTreeNode_new\<lparr> is_leaf := False \<rparr>) = Inr internal"
        and c: "createNode t internal = (internal_id, t1)"
        and r: "build_level t1 (drop order remaining) (internal_nodes @ [internal_id]) = Inr (result, t')"
      by (subst (asm) build_level.simps) (auto split: sum.splits prod.splits)
    have "length result = length (internal_nodes @ [internal_id])
        + (length (drop order remaining) + (order - 1)) div order"
      using "1.IH" [OF False f c [symmetric] r] .
    moreover have "0 < length remaining"
      using False by simp
    ultimately show ?thesis
      using ceil_div_step [of "length remaining"] by (simp add: order_def MAX_KEYS_def)
  qed
qed

function build_levels :: "'k::zero BPTree \<Rightarrow> int list \<Rightarrow> error + (int list \<times> 'k BPTree)" where
  \<comment> \<open>\<open>while (leaf_nodes.size() > 1) { ...; leaf_nodes = internal_nodes; }\<close>\<close>
  "build_levels t leaf_nodes =
     (if length leaf_nodes > 1 then
        (case build_level t leaf_nodes [] of
           Inl e \<Rightarrow> Inl e
         | Inr (internal_nodes, t1) \<Rightarrow> build_levels t1 internal_nodes)
      else Inr (leaf_nodes, t))"
  by pat_completeness auto
termination
proof (relation "measure (\<lambda>(t, leaf_nodes). length leaf_nodes)")
  show "wf (measure (\<lambda>(t :: 'k::zero BPTree, leaf_nodes). length leaf_nodes))"
    by simp
next
  fix t :: "'k::zero BPTree" and leaf_nodes x2 and internal_nodes t1
  assume "1 < length leaf_nodes" and "build_level t leaf_nodes [] = Inr x2"
    and "(internal_nodes, t1) = x2"
  then have "length internal_nodes = (length leaf_nodes + (order - 1)) div order"
    using build_level_length [of t leaf_nodes "[]" internal_nodes t1] by simp
  with \<open>1 < length leaf_nodes\<close> have "length internal_nodes < length leaf_nodes"
    by (simp add: order_def MAX_KEYS_def)
  then show "((t1, internal_nodes), (t, leaf_nodes)) \<in> measure (\<lambda>(t, leaf_nodes). length leaf_nodes)"
    by simp
qed

definition bulkLoad ::
  "'k::{linorder,zero} BPTree \<Rightarrow> ('k \<times> RecordPointer) list \<Rightarrow> error + (bool \<times> 'k BPTree)" where
  "bulkLoad t entries =
     (if entries = [] then Inr (False, t)
      else
        (case fill_leaves (sort_entries entries) 0 (- 1) BPTreeNode_new [] t of
           Inl e \<Rightarrow> Inl e
         | Inr (current_leaf, leaf, leaf_nodes, t1) \<Rightarrow>
             (case (if current_leaf \<noteq> - 1
                    then (snd (writeNode t1 current_leaf leaf), leaf_nodes @ [current_leaf])
                    else (t1, leaf_nodes)) of
                (t2, leaf_nodes1) \<Rightarrow>
                  if leaf_nodes1 = [] then Inl OutOfBounds
                  else
                    (case build_levels (link_leaves t2 leaf_nodes1) leaf_nodes1 of
                       Inl e \<Rightarrow> Inl e
                     | Inr (roots, t3) \<Rightarrow>
                         Inr (True, if roots \<noteq> [] then t3\<lparr> root_id := hd roots \<rparr> else t3)))))"

subsection \<open>Diagnostics\<close>

definition getNumNodes :: "'k BPTree \<Rightarrow> int" where
  "getNumNodes t = next_node_id t"

partial_function (option) levels_loop :: "'k BPTree \<Rightarrow> int \<Rightarrow> int \<Rightarrow> int option" where
  \<comment> \<open>\<open>while (readNode(current, node) && !node.is_leaf) { current = node.children[0]; levels++; }\<close>\<close>
  "levels_loop t current levels =
     (case readNode t current of
        None \<Rightarrow> Some levels
      | Some node \<Rightarrow>
          if \<not> is_leaf node then levels_loop t (children node 0) (levels + 1)
          else Some levels)"

definition getNumLevels :: "'k BPTree \<Rightarrow> int option" where
  "getNumLevels t = (if root_id t = - 1 then Some 0 else levels_loop t (root_id t) 1)"

subsection \<open>Point delete (bptree.cpp)\<close>

function find_key :: "'k BPTreeNode \<Rightarrow> 'k \<Rightarrow> nat \<Rightarrow> error + nat option" where
  \<comment> \<open>\<open>for (i = 0; i < leaf.num_keys; i++) if (leaf.keys[i] == key) { ...; break; }\<close>\<close>
  "find_key leaf key i =
     (if i < num_keys leaf then
        (case get_key leaf i of
           Inl e \<Rightarrow> Inl e
         | Inr k \<Rightarrow> if k = key then Inr (Some i) else find_key leaf key (Suc i))
      else Inr None)"
  by pat_completeness auto
termination
  by (relation "measure (\<lambda>(leaf, key, i). num_keys leaf - i)") auto

function shift_leaf_left :: "'k BPTreeNode \<Rightarrow> nat \<Rightarrow> error + 'k BPTreeNode" where
  \<comment> \<open>\<open>for (; i < leaf.num_keys - 1; i++) { keys[i] = keys[i+1]; children[i] = children[i+1]; }\<close>\<close>
  "shift_leaf_left leaf i =
     (if int i < int (num_keys leaf) - 1 then
        (case get_key leaf (i + 1) of
           Inl e \<Rightarrow> Inl e
         | Inr k \<Rightarrow>
             (case set_key leaf i k of
                Inl e \<Rightarrow> Inl e
              | Inr leaf1 \<Rightarrow>
                  (case get_child leaf1 (i + 1) of
                     Inl e \<Rightarrow> Inl e
                   | Inr c \<Rightarrow>
                       (case set_child leaf1 i c of
                          Inl e \<Rightarrow> Inl e
                        | Inr leaf2 \<Rightarrow> shift_leaf_left leaf2 (Suc i)))))
      else Inr leaf)"
  by pat_completeness auto
termination
  by (relation "measure (\<lambda>(leaf, i). num_keys leaf - i)")
    (auto simp: get_key_def set_key_def get_child_def set_child_def split: if_splits)

definition removeFromLeaf :: "'k BPTree \<Rightarrow> int \<Rightarrow> 'k \<Rightarrow> error + 'k BPTree" where
  "removeFromLeaf t leaf_id key =
     (case readNode t leaf_id of
        None \<Rightarrow> Inr t
      | Some leaf \<Rightarrow>
          (case find_key leaf key 0 of
             Inl e \<Rightarrow> Inl e
           | Inr None \<Rightarrow> Inr t
           | Inr (Some key_index) \<Rightarrow>
               (case shift_leaf_left leaf key_index of
                  Inl e \<Rightarrow> Inl e
                | Inr leaf1 \<Rightarrow>
                    Inr (snd (writeNode t leaf_id (leaf1\<lparr> num_keys := num_keys leaf1 - 1 \<rparr>))))))"

definition handleUnderflow :: "'k::zero BPTree \<Rightarrow> int \<Rightarrow> 'k BPTree" where
  "handleUnderflow t node_id =
     (case readNode t node_id of
        None \<Rightarrow> t
      | Some node \<Rightarrow>
          if parent node = - 1 then
            (if num_keys node = 0 \<and> \<not> is_leaf node then
               (if children node 0 \<noteq> - 1 then
                  (let t1 = t\<lparr> root_id := children node 0 \<rparr>;
                       new_root = (case readNode t1 (root_id t1) of Some n \<Rightarrow> n | None \<Rightarrow> BPTreeNode_new)
                   in snd (writeNode t1 (root_id t1) (new_root\<lparr> parent := - 1 \<rparr>)))
                else t)
             else t)
          else t)"

definition BPTree_remove :: "'k::{linorder,zero} BPTree \<Rightarrow> 'k \<Rightarrow> (error + (bool \<times> 'k BPTree)) option" where
  "BPTree_remove t key =
     (if root_id t = - 1 then Some (Inr (False, t))
      else
        (case findLeaf t key of
           None \<Rightarrow> None
         | Some (Inl e) \<Rightarrow> Some (Inl e)
         | Some (Inr leaf_id) \<Rightarrow>
             if leaf_id = - 1 then Some (Inr (False, t))
             else
               (case readNode t leaf_id of
                  None \<Rightarrow> Some (Inr (False, t))
                | Some leaf \<Rightarrow>
                    (case find_key leaf key 0 of
                       Inl e \<Rightarrow> Some (Inl e)
                     | Inr None \<Rightarrow> Some (Inr (False, t))
                     | Inr (Some _) \<Rightarrow>
                         (case removeFromLeaf t leaf_id key of
                            Inl e \<Rightarrow> Some (Inl e)
                          | Inr t1 \<Rightarrow>
                              (let updated_leaf =
                                     (case readNode t1 leaf_id of Some n \<Rightarrow> n | None \<Rightarrow> BPTreeNode_new)
                               in if parent updated_leaf \<noteq> - 1
                                     \<and> num_keys updated_leaf < (order + 1) div 2
                                  then Some (Inr (True, handleUnderflow t1 leaf_id))
                                  else Some (Inr (True, t1))))))))"

subsection \<open>Range delete\<close>

text \<open>
  The repository holds two bodies of \<open>BPTree::removeRange\<close>. The one in \<open>bptree.h\<close>
  rebuilds the tree from the entries outside the range (\<open>removeRange\<close> below); the one in
  \<open>bptree.cpp\<close> deletes the found entries one at a time with \<open>remove\<close>
  (\<open>removeRange_cpp\<close>).
\<close>

function keep_outside ::
  "'k::linorder BPTreeNode \<Rightarrow> 'k \<Rightarrow> 'k \<Rightarrow> nat \<Rightarrow> ('k \<times> RecordPointer) list
     \<Rightarrow> error + ('k \<times> RecordPointer) list" where
  \<comment> \<open>the loop over one leaf that collects \<open>remaining_data\<close>\<close>
  "keep_outside leaf min_key max_key i remaining_data =
     (if i < num_keys leaf then
        (case get_key leaf i of
           Inl e \<Rightarrow> Inl e
         | Inr key \<Rightarrow>
             (case get_child leaf i of
                Inl e \<Rightarrow> Inl e
              | Inr encoded_ptr \<Rightarrow>
                  if key < min_key \<or> key > max_key
                  then keep_outside leaf min_key max_key (Suc i)
                         (remaining_data @ [(key, decode_ptr encoded_ptr)])
                  else keep_outside leaf min_key max_key (Suc i) remaining_data))
      else Inr remaining_data)"
  by pat_completeness auto
termination
  by (relation "measure (\<lambda>(leaf, min_key, max_key, i, remaining_data). num_keys leaf - i)") auto

partial_function (option) remaining_loop ::
  "'k::linorder BPTree \<Rightarrow> 'k \<Rightarrow> 'k \<Rightarrow> int \<Rightarrow> ('k \<times> RecordPointer) list
     \<Rightarrow> (error + ('k \<times> RecordPointer) list) option" where
  "remaining_loop t min_key max_key current_leaf remaining_data =
     (if current_leaf \<noteq> - 1 then
        (case readNode t current_leaf of
           None \<Rightarrow> Some (Inr remaining_data)
         | Some leaf \<Rightarrow>
             (case keep_outside leaf min_key max_key 0 remaining_data of
                Inl e \<Rightarrow> Some (Inl e)
              | Inr remaining_data1 \<Rightarrow>
                  remaining_loop t min_key max_key (next_leaf leaf) remaining_data1))
      else Some (Inr remaining_data))"

definition rebuild_from ::
  "'k::{linorder,zero} BPTree \<Rightarrow> ('k \<times> RecordPointer) list \<Rightarrow> error + 'k BPTree" where
  \<comment> \<open>the end of \<open>removeRange\<close> (bptree.h), from \<open>root_id = -1;\<close> on\<close>
  "rebuild_from t remaining_data =
     (let t1 = t\<lparr> root_id := - 1, next_node_id := 0 \<rparr> in
      if remaining_data \<noteq> [] then
        (case bulkLoad t1 (sort_entries remaining_data) of
           Inl e \<Rightarrow> Inl e
         | Inr (_, t2) \<Rightarrow> Inr (t2\<lparr> next_node_id := 251 \<rparr>))
      else Inr t1)"

definition removeRange ::
  "'k::{linorder,zero} BPTree \<Rightarrow> 'k \<Rightarrow> 'k \<Rightarrow> (error + (int \<times> 'k BPTree)) option" where
  "removeRange t min_key max_key =
     (case rangeSearch t min_key max_key of
        None \<Rightarrow> None
      | Some (Inl e) \<Rightarrow> Some (Inl e)
      | Some (Inr records_to_remove) \<Rightarrow>
          (let removed_count = int (length records_to_remove) in
           case findLeaf t 0 of
             None \<Rightarrow> None
           | Some (Inl e) \<Rightarrow> Some (Inl e)
           | Some (Inr current_leaf) \<Rightarrow>
               (case remaining_loop t min_key max_key current_leaf [] of
                  None \<Rightarrow> None
                | Some (Inl e) \<Rightarrow> Some (Inl e)
                | Some (Inr remaining_data) \<Rightarrow>
                    (case rebuild_from t remaining_data of
                       Inl e \<Rightarrow> Some (Inl e)
                     | Inr t1 \<Rightarrow> Some (Inr (removed_count, t1))))))"

function remove_matching ::
  "'k::{linorder,zero} BPTree \<Rightarrow> 'k BPTreeNode \<Rightarrow> RecordPointer \<Rightarrow> nat
     \<Rightarrow> (error + (bool \<times> 'k BPTree)) option" where
  \<comment> \<open>bptree.cpp: the loop over the slots of the leaf copy that looks for the pointer and
      calls \<open>remove(leaf.keys[i])\<close>; the boolean is \<open>found\<close>\<close>
  "remove_matching t leaf ptr i =
     (if i < num_keys leaf then
        (case get_child leaf i of
           Inl e \<Rightarrow> Some (Inl e)
         | Inr encoded_ptr \<Rightarrow>
             if block_id (decode_ptr encoded_ptr) = block_id ptr
                \<and> record_index (decode_ptr encoded_ptr) = record_index ptr
             then
               (case get_key leaf i of
                  Inl e \<Rightarrow> Some (Inl e)
                | Inr k \<Rightarrow>
                    (case BPTree_remove t k of
                       None \<Rightarrow> None
                     | Some (Inl e) \<Rightarrow> Some (Inl e)
                     | Some (Inr (removed, t1)) \<Rightarrow>
                         if removed then Some (Inr (True, t1))
                         else remove_matching t1 leaf ptr (Suc i)))
             else remove_matching t leaf ptr (Suc i))
      else Some (Inr (False, t)))"
  by pat_completeness auto
termination
  by (relation "measure (\<lambda>(t, leaf, ptr, i). num_keys leaf - i)") auto

partial_function (option) remove_pointer_loop ::
  "'k::{linorder,zero} BPTree \<Rightarrow> RecordPointer \<Rightarrow> int \<Rightarrow> (error + (bool \<times> 'k BPTree)) option" where
  \<comment> \<open>bptree.cpp: \<open>while (current_leaf != -1 && !found)\<close>\<close>
  "remove_pointer_loop t ptr current_leaf =
     (if current_leaf \<noteq> - 1 then
        (case readNode t current_leaf of
           None \<Rightarrow> Some (Inr (False, t))
         | Some leaf \<Rightarrow>
             (case remove_matching t leaf ptr 0 of
                None \<Rightarrow> None
              | Some (Inl e) \<Rightarrow> Some (Inl e)
              | Some (Inr (found, t1)) \<Rightarrow>
                  if found then Some (Inr (True, t1))
                  else remove_pointer_loop t1 ptr (next_leaf leaf)))
      else Some (Inr (False, t)))"

fun remove_each ::
  "'k::{linorder,zero} BPTree \<Rightarrow> 'k \<Rightarrow> RecordPointer list \<Rightarrow> int \<Rightarrow> (error + (int \<times> 'k BPTree)) option" where
  \<comment> \<open>bptree.cpp: \<open>for (const RecordPointer& ptr : records_to_remove)\<close>\<close>
  "remove_each t min_key [] removed_count = Some (Inr (removed_count, t))"
| "remove_each t min_key (ptr # rest) removed_count =
     (case findLeaf t min_key of
        None \<Rightarrow> None
      | Some (Inl e) \<Rightarrow> Some (Inl e)
      | Some (Inr current_leaf) \<Rightarrow>
          (case remove_pointer_loop t ptr current_leaf of
             None \<Rightarrow> None
           | Some (Inl e) \<Rightarrow> Some (Inl e)
           | Some (Inr (found, t1)) \<Rightarrow>
               remove_each t1 min_key rest (if found then removed_count + 1 else removed_count)))"

definition removeRange_cpp ::
  "'k::{linorder,zero} BPTree \<Rightarrow> 'k \<Rightarrow> 'k \<Rightarrow> (error + (int \<times> 'k BPTree)) option" where
  "removeRange_cpp t min_key max_key =
     (case rangeSearch t min_key max_key of
        None \<Rightarrow> None
      | Some (Inl e) \<Rightarrow> Some (Inl e)
      | Some (Inr records_to_remove) \<Rightarrow> remove_each t min_key records_to_remove 0)"

subsection \<open>Evaluation\<close>

text \<open>The loops that may not terminate are evaluated through their defining equations.\<close>

declare findLeaf_loop.simps [code]
declare rangeSearch_loop.simps [code]
declare levels_loop.simps [code]
declare remaining_loop.simps [code]
declare remove_pointer_loop.simps [code]
declare insertIntoParent.simps [code]

subsection \<open>Example inputs\<close>

definition three_entries :: "(int \<times> RecordPointer) list" where
  "three_entries = [(7, RecordPointer 0 2), (3, RecordPointer 0 0), (5, RecordPointer 0 1)]"

definition same_key_102 :: "(int \<times> RecordPointer) list" where
  \<comment> \<open>102 entries with the key 5, for the slots 0..91 of block 0 and 0..9 of block 1\<close>
  "same_key_102 = map (\<lambda>i. (5, RecordPointer 0 (int i))) [0..<92] @ map (\<lambda>i. (5, RecordPointer 1 (int i))) [0..<10]"

definition keys_1_to_101 :: "(int \<times> RecordPointer) list" where
  \<comment> \<open>101 entries with the keys 1..101, one full leaf\<close>
  "keys_1_to_101 = map (\<lambda>i. (int i, RecordPointer (int i div 92) (int i mod 92))) [1..<102]"

definition ascending_10202 :: "(int \<times> RecordPointer) list" where
  \<comment> \<open>10202 entries with the keys 1..10202, in the slots of a heap with 92 records per block\<close>
  "ascending_10202 =
     map (\<lambda>i. (int i + 1, RecordPointer (int (i div 92)) (int (i mod 92)))) [0..<10202]"

definition three_entry_tree :: "int BPTree" where
  \<comment> \<open>the index after \<open>open()\<close> on a new file and \<open>bulkLoad(three_entries)\<close>\<close>
  "three_entry_tree = \<lparr> root_id = 1, next_node_id = 2,
     nodes = [0 \<mapsto> BPTreeNode_new,
              1 \<mapsto> \<lparr> is_leaf = True, num_keys = 3,
                       keys = (\<lambda>_. 0)(0 := 3, 1 := 5, 2 := 7),
                       children = (\<lambda>_. - 1)(0 := 0, 1 := 1, 2 := 2),
                       next_leaf = - 1, parent = - 1 \<rparr>] \<rparr>"

subsection \<open>Properties of a stored tree\<close>



subsection \<open>The tree that a bulk load builds\<close>

text \<open>
  The predicates below describe the nodes that \<open>bulkLoad\<close> writes: the sorted entries are
  cut into runs of \<open>order\<close> entries, one leaf per run, and every level above is cut into
  groups of \<open>order\<close> node ids, one parent per group.
\<close>

definition enc :: "RecordPointer \<Rightarrow> int" where
  \<comment> \<open>the value of \<open>block_id * 10000 + record_index\<close> without the bounds of \<open>int\<close>\<close>
  "enc p = block_id p * 10000 + record_index p"

definition encodable :: "RecordPointer \<Rightarrow> bool" where
  \<comment> \<open>the encoding of the pointer does not overflow\<close>
  "encodable p \<longleftrightarrow> int_in_range (block_id p * 10000) \<and> int_in_range (enc p)"

definition holds_entries :: "'k::zero BPTreeNode \<Rightarrow> ('k \<times> RecordPointer) list \<Rightarrow> bool" where
  \<comment> \<open>a leaf as the loop of step 2 leaves it: these entries in order, the other slots untouched\<close>
  "holds_entries n es \<longleftrightarrow>
     is_leaf n \<and> num_keys n = length es
     \<and> (\<forall>i. keys n i = (if i < length es then fst (es ! i) else 0))
     \<and> (\<forall>i. children n i = (if i < length es then enc (snd (es ! i)) else - 1))
     \<and> parent n = - 1"

function chunk :: "nat \<Rightarrow> 'a list \<Rightarrow> 'a list list" where
  \<comment> \<open>the list cut into runs of \<open>n\<close> elements, the last run with what is left\<close>
  "chunk n xs = (if xs = [] \<or> n = 0 then [] else take n xs # chunk n (drop n xs))"
  by pat_completeness auto
termination
  by (relation "measure (\<lambda>(n, xs). length xs)") auto

definition leaf_level :: "'k::zero BPTree \<Rightarrow> int \<Rightarrow> ('k \<times> RecordPointer) list list \<Rightarrow> bool" where
  \<comment> \<open>the linked leaves with the ids \<open>n0\<close>, \<open>n0 + 1\<close>, ..., one for each run\<close>
  "leaf_level t n0 cs \<longleftrightarrow>
     (\<forall>j<length cs. \<exists>nd. nodes t (n0 + int j) = Some nd \<and> holds_entries nd (cs ! j)
        \<and> next_leaf nd = (if j + 1 < length cs then n0 + int j + 1 else - 1))"

definition fl_inv ::
  "int \<Rightarrow> 'k::zero BPTree \<Rightarrow> ('k \<times> RecordPointer) list list \<Rightarrow> ('k \<times> RecordPointer) list
     \<Rightarrow> int \<Rightarrow> 'k BPTreeNode \<Rightarrow> int list \<Rightarrow> 'k BPTree \<Rightarrow> bool" where
  \<comment> \<open>the state of the loop of step 2 between two entries: \<open>full\<close> are the runs of the
      leaves already written, \<open>curl\<close> the entries of the leaf being filled\<close>
  "fl_inv n0 t0 full curl cur leaf lns t \<longleftrightarrow>
     (\<forall>c \<in> set full. length c = order) \<and> length curl \<le> order
     \<and> (curl = [] \<longrightarrow> full = [] \<and> cur = - 1)
     \<and> (curl \<noteq> [] \<longrightarrow> cur = n0 + int (length full))
     \<and> lns = map (\<lambda>j. n0 + int j) [0..<length full]
     \<and> next_node_id t = n0 + int (length full) + (if curl = [] then 0 else 1)
     \<and> holds_entries leaf curl \<and> next_leaf leaf = - 1
     \<and> (\<forall>j<length full. \<exists>nd. nodes t (n0 + int j) = Some nd \<and> holds_entries nd (full ! j)
            \<and> next_leaf nd = - 1)
     \<and> (\<forall>node_id. node_id < n0 \<longrightarrow> nodes t node_id = nodes t0 node_id)
     \<and> root_id t = root_id t0"

definition first_key :: "'k::zero BPTree \<Rightarrow> int \<Rightarrow> 'k" where
  \<comment> \<open>\<open>readNode(id, next_leaf); next_leaf.keys[0]\<close>\<close>
  "first_key t node_id = keys (case readNode t node_id of Some n \<Rightarrow> n | None \<Rightarrow> BPTreeNode_new) 0"

definition internal_part :: "'k::zero BPTree \<Rightarrow> 'k BPTreeNode \<Rightarrow> nat \<Rightarrow> int list \<Rightarrow> bool" where
  \<comment> \<open>a parent after the first \<open>n\<close> children of its group\<close>
  "internal_part t p n grp \<longleftrightarrow>
     \<not> is_leaf p \<and> num_keys p = n
     \<and> (\<forall>d. children p d = (if d < n then grp ! d else - 1))
     \<and> (\<forall>d. keys p d = (if d < n then first_key t (grp ! (d + 1)) else 0))
     \<and> next_leaf p = - 1 \<and> parent p = - 1"

definition internal_over :: "'k::zero BPTree \<Rightarrow> 'k BPTreeNode \<Rightarrow> int list \<Rightarrow> bool" where
  \<comment> \<open>the finished parent of a group: its children, and \<open>keys[0]\<close> of every child but the first\<close>
  "internal_over t p grp \<longleftrightarrow>
     \<not> is_leaf p \<and> num_keys p = length grp - 1
     \<and> (\<forall>d. children p d = (if d < length grp then grp ! d else - 1))
     \<and> (\<forall>d. keys p d = (if d + 1 < length grp then first_key t (grp ! (d + 1)) else 0))
     \<and> next_leaf p = - 1 \<and> parent p = - 1"

section \<open>Properties of the storage layer\<close>

lemma consts_simps:
  "MAX_RECORDS = 92" "DATA_SIZE = 4080" "sizeof_Record = 44" "BLOCK_SIZE = 4096"
  "MAX_DATABASE_SIZE = 104857600"
  by (simp_all add: MAX_RECORDS_def DATA_SIZE_def sizeof_Record_def BLOCK_SIZE_def HEADER_SIZE_def
      MAX_DATABASE_SIZE_def)

lemma memcpy_in_slot:
  assumes "0 \<le> i" "i < 92"
  shows "memcpy_in d (size_t_of (i * sizeof_Record)) r = Inr (d(nat i := r))"
proof -
  have "i * 44 < 2 ^ 64" using assms by simp
  then have "size_t_of (i * 44) = i * 44" using assms by (simp add: size_t_of_def)
  then show ?thesis using assms by (simp add: memcpy_in_def consts_simps)
qed


lemma Block_addRecord_room:
  assumes "0 \<le> hdr_num_records (header b)" "hdr_num_records (header b) < 92"
  shows "Block_addRecord b r = Inr (True, b\<lparr> data := (data b)(nat (hdr_num_records (header b)) := r),
            header := (header b)\<lparr> hdr_num_records := hdr_num_records (header b) + 1 \<rparr> \<rparr>)"
  using assms by (simp add: Block_addRecord_def consts_simps(1) memcpy_in_slot)

lemma Block_addRecord_full:
  assumes "92 \<le> hdr_num_records (header b)"
  shows "Block_addRecord b r = Inr (False, b)"
  using assms by (simp add: Block_addRecord_def consts_simps(1))


subsection \<open>Heap: adding records\<close>

lemma addRecord_new_block_ok:
  assumes "0 \<le> num_blocks db" "num_blocks db < 25599"
  shows "addRecord_new_block db r =
    Inr (True, db\<lparr> blocks := (blocks db)(num_blocks db \<mapsto>
                 \<lparr> header = \<lparr> hdr_block_id = num_blocks db, hdr_num_records = 1, hdr_next_block = 0 \<rparr>,
                   data = (\<lambda>_. Record_empty)(0 := r) \<rparr>),
               num_blocks := num_blocks db + 1, num_records := num_records db + 1 \<rparr>)"
proof -
  have r: "int_in_range (num_blocks db * 4096)"
    using assms by (simp add: int_in_range_def)
  have s: "size_t_of (num_blocks db * 4096) = num_blocks db * 4096"
    using assms by (simp add: size_t_of_def)
  have s2: "size_t_of (num_blocks db * 4096 + 8) = num_blocks db * 4096 + 8"
    using assms by (simp add: size_t_of_def)
  have s3: "size_t_of (num_blocks db * 4096 + 8 + 4096) = num_blocks db * 4096 + 8 + 4096"
    using assms by (simp add: size_t_of_def)
  have b: "Block_addRecord (Block_new\<lparr> header := (header Block_new)\<lparr> hdr_block_id := num_blocks db \<rparr> \<rparr>) r
      = Inr (True, \<lparr> header = \<lparr> hdr_block_id = num_blocks db, hdr_num_records = 1, hdr_next_block = 0 \<rparr>,
                   data = (\<lambda>_. Record_empty)(0 := r) \<rparr>)"
    by (subst Block_addRecord_room) (simp_all add: Block_new_def)
  show ?thesis
    unfolding addRecord_new_block_def
    using assms r s s2 s3 b
    by (simp add: consts_simps addBlock_def writeBlock_def Let_def)
qed

lemma addRecord_new_block_refused:
  assumes "int_in_range (num_blocks db * BLOCK_SIZE)"
    and "num_blocks db * BLOCK_SIZE + 8 + BLOCK_SIZE > MAX_DATABASE_SIZE"
  shows "addRecord_new_block db r = Inr (False, db)"
proof -
  have pos: "0 \<le> num_blocks db * 4096" "num_blocks db * 4096 < 2 ^ 31"
    using assms by (simp_all add: consts_simps int_in_range_def)
  have s: "size_t_of (num_blocks db * 4096) = num_blocks db * 4096"
    using pos by (simp add: size_t_of_def)
  have s2: "size_t_of (num_blocks db * 4096 + 8) = num_blocks db * 4096 + 8"
    using pos by (simp add: size_t_of_def)
  have s3: "size_t_of (num_blocks db * 4096 + 8 + 4096) = num_blocks db * 4096 + 8 + 4096"
    using pos by (simp add: size_t_of_def)
  show ?thesis
    unfolding addRecord_new_block_def
    using assms s s2 s3 by (simp add: consts_simps)
qed

text \<open>
  Claim C4. When the last block is full (or cannot be read, or there is no block) and one
  more block would take the file past 100 MiB, \<open>addRecord\<close> returns false and leaves
  the heap as it was: \<open>num_records\<close> and \<open>num_blocks\<close> unchanged, no block written.
  The product \<open>num_blocks * BLOCK_SIZE\<close> is an \<open>int\<close> product in the source; the first
  hypothesis says that it does not overflow.
\<close>

theorem addRecord_capacity_refusal:
  assumes no_overflow: "int_in_range (num_blocks db * BLOCK_SIZE)"
    and last_full: "num_blocks db \<le> 0 \<or>
          (case readBlock db (num_blocks db - 1) of None \<Rightarrow> True | Some b \<Rightarrow> isFull b)"
    and over: "num_blocks db * 4096 + 8 + 4096 > 100 * 1024 * 1024"
  shows "addRecord db record = Inr (False, db)"
proof -
  have "addRecord db record = addRecord_new_block db record"
    using last_full by (auto simp: addRecord_def split: option.splits)
  also have "\<dots> = Inr (False, db)"
    using no_overflow over by (intro addRecord_new_block_refused) (simp_all add: consts_simps)
  finally show ?thesis .
qed

theorem addRecord_capacity_refusal_witness:
  "int_in_range (num_blocks full_heap * BLOCK_SIZE) \<and>
   (case readBlock full_heap (num_blocks full_heap - 1) of None \<Rightarrow> True | Some b \<Rightarrow> isFull b) \<and>
   num_blocks full_heap * 4096 + 8 + 4096 > 100 * 1024 * 1024 \<and>
   addRecord full_heap Record_empty = Inr (False, full_heap)"
proof -
  have a: "int_in_range (num_blocks full_heap * BLOCK_SIZE)"
    by (simp add: full_heap_def int_in_range_def consts_simps)
  have b: "(case readBlock full_heap (num_blocks full_heap - 1) of None \<Rightarrow> True | Some b \<Rightarrow> isFull b)"
    by (simp add: full_heap_def readBlock_def isFull_def consts_simps)
  have c: "num_blocks full_heap * 4096 + 8 + 4096 > 100 * 1024 * 1024"
    by (simp add: full_heap_def)
  show ?thesis
    using a b c addRecord_capacity_refusal [of full_heap Record_empty] by blast
qed


subsection \<open>Heap: deleting a record\<close>

text \<open>
  Claim C6. For a block that can be read and a slot index in \<open>[0, MAX_RECORDS)\<close>,
  \<open>deleteRecord\<close> succeeds, puts the all-zero record in that slot, and changes nothing
  else: the other slots and the header (with its record count) of the block, the other
  blocks, and the heap's \<open>num_records\<close> and \<open>num_blocks\<close> stay as they were.
\<close>

theorem deleteRecord_frame:
  assumes "readBlock db bid = Some blk"
    and "0 \<le> slot" and "slot < MAX_RECORDS"
  shows "\<exists>db' blk'. deleteRecord db bid slot = Inr (True, db')
      \<and> readBlock db' bid = Some blk'
      \<and> data blk' (nat slot) = Record_empty
      \<and> (\<forall>j. j \<noteq> nat slot \<longrightarrow> data blk' j = data blk j)
      \<and> header blk' = header blk
      \<and> num_records db' = num_records db
      \<and> num_blocks db' = num_blocks db
      \<and> (\<forall>b. b \<noteq> bid \<longrightarrow> readBlock db' b = readBlock db b)"
proof -
  have nn: "0 \<le> bid"
    using assms(1) by (auto simp: readBlock_def split: if_splits)
  have "deleteRecord db bid slot =
      Inr (True, db\<lparr> blocks := (blocks db)(bid \<mapsto> blk\<lparr> data := (data blk)(nat slot := Record_empty) \<rparr>) \<rparr>)"
    using assms nn
    by (simp add: deleteRecord_def memcpy_in_slot consts_simps(1) writeBlock_def)
  then show ?thesis
    using nn by (simp add: readBlock_def)
qed

theorem deleteRecord_frame_witness:
  "\<exists>blk. readBlock two_record_heap 0 = Some blk \<and> (0::int) \<le> 1 \<and> 1 < MAX_RECORDS \<and>
   (\<exists>db' blk'. deleteRecord two_record_heap 0 1 = Inr (True, db')
      \<and> readBlock db' 0 = Some blk'
      \<and> data blk' (nat 1) = Record_empty
      \<and> (\<forall>j. j \<noteq> nat 1 \<longrightarrow> data blk' j = data blk j)
      \<and> header blk' = header blk
      \<and> num_records db' = num_records two_record_heap
      \<and> num_blocks db' = num_blocks two_record_heap
      \<and> (\<forall>b. b \<noteq> 0 \<longrightarrow> readBlock db' b = readBlock two_record_heap b))"
proof -
  obtain blk where r: "readBlock two_record_heap 0 = Some blk"
    by (simp add: two_record_heap_def readBlock_def)
  have m: "(1::int) < MAX_RECORDS"
    by (simp add: consts_simps)
  have z: "(0::int) \<le> 1"
    by simp
  show ?thesis
    using r z m deleteRecord_frame [OF r z m] by blast
qed




subsection \<open>Heap: packing\<close>

lemma addRecord_last_has_room:
  assumes "num_blocks db > 0" "readBlock db (num_blocks db - 1) = Some b"
    and "0 \<le> hdr_num_records (header b)" "hdr_num_records (header b) < 92"
  shows "addRecord db r =
    Inr (True, db\<lparr> blocks := (blocks db)(num_blocks db - 1 \<mapsto>
           b\<lparr> data := (data b)(nat (hdr_num_records (header b)) := r),
              header := (header b)\<lparr> hdr_num_records := hdr_num_records (header b) + 1 \<rparr> \<rparr>),
        num_records := num_records db + 1 \<rparr>)"
  using assms
  by (simp add: addRecord_def isFull_def consts_simps(1) Block_addRecord_room writeBlock_def)

lemma addRecord_last_full:
  assumes "num_blocks db > 0" "readBlock db (num_blocks db - 1) = Some b"
    and "92 \<le> hdr_num_records (header b)"
  shows "addRecord db r = addRecord_new_block db r"
  using assms by (simp add: addRecord_def isFull_def consts_simps(1))

lemma packed_snoc:
  assumes "packed recs b"
  shows "packed (recs @ [r]) (b\<lparr> data := (data b)(nat (hdr_num_records (header b)) := r),
              header := (header b)\<lparr> hdr_num_records := hdr_num_records (header b) + 1 \<rparr> \<rparr>)"
  using assms by (auto simp: packed_def nth_append)

lemma add_records_one_block:
  assumes "num_blocks db = 1" "blocks db 0 = Some b" "packed done b"
    and "length done + length recs \<le> 92"
  shows "\<exists>db' b'. add_records db recs = Inr db' \<and> num_blocks db' = 1 \<and> blocks db' 0 = Some b'
      \<and> packed (done @ recs) b' \<and> num_records db' = num_records db + int (length recs)"
  using assms
proof (induction recs arbitrary: db b "done")
  case Nil
  then show ?case by simp
next
  case (Cons r recs)
  let ?b = "b\<lparr> data := (data b)(nat (hdr_num_records (header b)) := r),
              header := (header b)\<lparr> hdr_num_records := hdr_num_records (header b) + 1 \<rparr> \<rparr>"
  let ?db = "db\<lparr> blocks := (blocks db)(num_blocks db - 1 \<mapsto> ?b), num_records := num_records db + 1 \<rparr>"
  have n: "hdr_num_records (header b) = int (length done)"
    using Cons.prems(3) by (simp add: packed_def)
  have step: "addRecord db r = Inr (True, ?db)"
    using Cons.prems n by (intro addRecord_last_has_room) (simp_all add: readBlock_def)
  have "\<exists>db' b'. add_records ?db recs = Inr db' \<and> num_blocks db' = 1 \<and> blocks db' 0 = Some b'
      \<and> packed ((done @ [r]) @ recs) b' \<and> num_records db' = num_records ?db + int (length recs)"
    using Cons.prems by (intro Cons.IH[of ?db ?b "done @ [r]"]) (simp_all add: packed_snoc)
  then show ?case
    using step by auto
qed

lemma add_records_snoc:
  "add_records db (xs @ [y]) =
      (case add_records db xs of Inl e \<Rightarrow> Inl e
       | Inr d \<Rightarrow> (case addRecord d y of Inl e \<Rightarrow> Inl e | Inr (_, d') \<Rightarrow> Inr d'))"
  by (induction xs arbitrary: db) (auto split: sum.splits)

text \<open>
  Claim C7. Adding any 93 records to an empty heap gives two blocks, the first with the
  first 92 records in slots 0..91, the second with the last record in slot 0, and
  \<open>num_records = 93\<close>. On a block with a record count in \<open>[0, 92]\<close>,
  \<open>Block::addRecord\<close> fails exactly at count 92; below it, it stores the record in slot
  \<open>record_count\<close> and increments the count.
\<close>

theorem packing_93_records:
  assumes "length records = 93"
    and "0 \<le> hdr_num_records (header blk)" and "hdr_num_records (header blk) \<le> MAX_RECORDS"
  shows "(\<exists>db b0 b1. add_records Database_new records = Inr db
            \<and> num_blocks db = 2 \<and> num_records db = 93
            \<and> readBlock db 0 = Some b0 \<and> getNumRecords b0 = 92
            \<and> (\<forall>i<92. data b0 i = records ! i)
            \<and> readBlock db 1 = Some b1 \<and> getNumRecords b1 = 1 \<and> data b1 0 = records ! 92)
       \<and> ((\<exists>blk'. Block_addRecord blk r = Inr (False, blk')) \<longleftrightarrow> hdr_num_records (header blk) = 92)
       \<and> (hdr_num_records (header blk) \<noteq> 92 \<longrightarrow>
            Block_addRecord blk r =
              Inr (True, blk\<lparr> data := (data blk)(nat (hdr_num_records (header blk)) := r),
                     header := (header blk)\<lparr> hdr_num_records := hdr_num_records (header blk) + 1 \<rparr> \<rparr>))"
proof -
  obtain r0 mid r92 where split: "records = r0 # mid @ [r92]" and lm: "length mid = 91"
  proof -
    obtain r0 rest where a: "records = r0 # rest"
      using assms(1) by (cases records) auto
    then have "rest \<noteq> []" using assms(1) by auto
    then obtain mid r92 where b: "rest = mid @ [r92]"
      by (metis rev_exhaust)
    show ?thesis using that[of r0 mid r92] a b assms(1) by simp
  qed
  let ?b1 = "\<lparr> header = \<lparr> hdr_block_id = 0, hdr_num_records = 1, hdr_next_block = 0 \<rparr>,
               data = (\<lambda>_. Record_empty)(0 := r0) \<rparr>"
  let ?db1 = "Database_new\<lparr> blocks := (blocks Database_new)(num_blocks Database_new \<mapsto> ?b1),
               num_blocks := num_blocks Database_new + 1, num_records := num_records Database_new + 1 \<rparr>"
  have first: "addRecord Database_new r0 = Inr (True, ?db1)"
  proof -
    have "addRecord Database_new r0 = addRecord_new_block Database_new r0"
      by (simp add: addRecord_def Database_new_def)
    then show ?thesis
      by (simp add: addRecord_new_block_ok Database_new_def)
  qed
  have "\<exists>db' b'. add_records ?db1 mid = Inr db' \<and> num_blocks db' = 1 \<and> blocks db' 0 = Some b'
      \<and> packed ([r0] @ mid) b' \<and> num_records db' = num_records ?db1 + int (length mid)"
    using lm by (intro add_records_one_block[of ?db1 ?b1 "[r0]" mid])
      (simp_all add: Database_new_def packed_def)
  then obtain db92 b92 where mid: "add_records ?db1 mid = Inr db92" and nb: "num_blocks db92 = 1"
      and b92: "blocks db92 0 = Some b92" and p92: "packed (r0 # mid) b92"
      and nr: "num_records db92 = 92"
    using lm by (auto simp: Database_new_def)
  have full: "hdr_num_records (header b92) = 92"
    using p92 lm by (simp add: packed_def)
  let ?b93 = "\<lparr> header = \<lparr> hdr_block_id = 1, hdr_num_records = 1, hdr_next_block = 0 \<rparr>,
               data = (\<lambda>_. Record_empty)(0 := r92) \<rparr>"
  let ?db93 = "db92\<lparr> blocks := (blocks db92)(1 \<mapsto> ?b93), num_blocks := 2, num_records := 93 \<rparr>"
  have last: "addRecord db92 r92 = Inr (True, ?db93)"
  proof -
    have "addRecord db92 r92 = addRecord_new_block db92 r92"
      using nb b92 full by (intro addRecord_last_full[of db92 b92]) (simp_all add: readBlock_def)
    then show ?thesis
      using nb nr by (simp add: addRecord_new_block_ok)
  qed
  have all: "add_records Database_new records = Inr ?db93"
    unfolding split using first mid last
    by (simp add: add_records_snoc)
  have blocks: "readBlock ?db93 0 = Some b92" "readBlock ?db93 1 = Some ?b93"
    using b92 by (simp_all add: readBlock_def)
  have slots: "\<forall>i<92. data b92 i = records ! i"
  proof (intro allI impI)
    fix i :: nat
    assume i: "i < 92"
    then have "data b92 i = (r0 # mid) ! i"
      using p92 lm by (simp add: packed_def)
    moreover have "((r0 # mid) @ [r92]) ! i = (r0 # mid) ! i"
      using i lm by (subst nth_append) simp
    ultimately show "data b92 i = records ! i"
      unfolding split by simp
  qed
  have r92: "records ! 92 = r92"
    unfolding split using lm by (simp add: nth_append)
  have part1: "\<exists>db b0 b1. add_records Database_new records = Inr db
            \<and> num_blocks db = 2 \<and> num_records db = 93
            \<and> readBlock db 0 = Some b0 \<and> getNumRecords b0 = 92
            \<and> (\<forall>i<92. data b0 i = records ! i)
            \<and> readBlock db 1 = Some b1 \<and> getNumRecords b1 = 1 \<and> data b1 0 = records ! 92"
    using all blocks slots r92 full
    by (intro exI[of _ ?db93] exI[of _ b92] exI[of _ ?b93]) (simp add: getNumRecords_def)
  have part2: "(\<exists>blk'. Block_addRecord blk r = Inr (False, blk')) \<longleftrightarrow> hdr_num_records (header blk) = 92"
  proof (cases "hdr_num_records (header blk) = 92")
    case True
    then show ?thesis by (simp add: Block_addRecord_full)
  next
    case False
    then have "hdr_num_records (header blk) < 92"
      using assms(3) by (simp add: consts_simps)
    then show ?thesis
      using assms(2) False by (simp add: Block_addRecord_room)
  qed
  have part3: "hdr_num_records (header blk) \<noteq> 92 \<longrightarrow>
            Block_addRecord blk r =
              Inr (True, blk\<lparr> data := (data blk)(nat (hdr_num_records (header blk)) := r),
                     header := (header blk)\<lparr> hdr_num_records := hdr_num_records (header blk) + 1 \<rparr> \<rparr>)"
    using assms(2,3) by (auto simp: consts_simps intro!: Block_addRecord_room)
  show ?thesis
    using part1 part2 part3 by blast
qed

theorem packing_93_records_witness:
  "length (replicate 93 Record_empty) = 93
   \<and> 0 \<le> hdr_num_records (header Block_new) \<and> hdr_num_records (header Block_new) \<le> MAX_RECORDS
   \<and> (\<exists>db b0 b1. add_records Database_new (replicate 93 Record_empty) = Inr db
            \<and> num_blocks db = 2 \<and> num_records db = 93
            \<and> readBlock db 0 = Some b0 \<and> getNumRecords b0 = 92
            \<and> readBlock db 1 = Some b1 \<and> getNumRecords b1 = 1)
   \<and> (\<exists>blk'. Block_addRecord Block_new Record_empty = Inr (True, blk'))"
proof -
  have a: "length (replicate 93 Record_empty) = 93"
    by simp
  have b: "0 \<le> hdr_num_records (header Block_new)" "hdr_num_records (header Block_new) \<le> MAX_RECORDS"
    by (simp_all add: Block_new_def consts_simps)
  have c: "hdr_num_records (header Block_new) \<noteq> 92"
    by (simp add: Block_new_def)
  note t = packing_93_records [OF a b, of Record_empty]
  have t1: "\<exists>db b0 b1. add_records Database_new (replicate 93 Record_empty) = Inr db
            \<and> num_blocks db = 2 \<and> num_records db = 93
            \<and> readBlock db 0 = Some b0 \<and> getNumRecords b0 = 92
            \<and> readBlock db 1 = Some b1 \<and> getNumRecords b1 = 1"
    using conjunct1 [OF t] by blast
  have t3: "\<exists>blk'. Block_addRecord Block_new Record_empty = Inr (True, blk')"
    using conjunct2 [OF conjunct2 [OF t]] c by blast
  show ?thesis
    using a b t1 t3 by blast
qed

section \<open>Properties of the index\<close>

lemma sort_three: "sort_entries three_entries = [(3, RecordPointer 0 0), (5, RecordPointer 0 1), (7, RecordPointer 0 2)]"
  by (simp add: sort_entries_def three_entries_def)

lemma three_entry_tree_built:
  "bulkLoad BPTree_open_new three_entries = Inr (True, three_entry_tree)"
  unfolding bulkLoad_def sort_three
  by (simp add: three_entries_def BPTree_open_new_def BPTree_new_def createNode_def writeNode_def
      order_def MAX_KEYS_def set_key_def set_child_def encode_ptr_def int_in_range_def
      three_entry_tree_def BPTreeNode_new_def fun_eq_iff)








text \<open>
  Equal keys across a leaf boundary, evaluated on the code. 102 entries with the same key 5
  are bulk-loaded into a freshly opened index; the interval \<open>[5, 5]\<close> contains every key, and
  \<open>rangeSearch(5, 5)\<close> returns one pointer, not 102: the descent goes right of a separator
  equal to the key and the 101 entries of the first leaf are never visited.
\<close>

theorem rangeSearch_misses_equal_keys:
  "length same_key_102 = 102 \<and> map fst same_key_102 = replicate 102 5
   \<and> (case bulkLoad BPTree_open_new same_key_102 of
        Inl e \<Rightarrow> False
      | Inr (ok, t) \<Rightarrow> ok \<and> rangeSearch t 5 5 = Some (Inr [RecordPointer 1 9]))"
  by code_simp

text \<open>
  The same input, evaluated on the code. After the bulk load of the 102 entries the root
  is an internal node with the single separator 5, and the leaf under \<open>children[0]\<close>
  holds 101 keys that are all 5: they are not below the separator. \<open>search(5)\<close> then
  finds one of the 102 entries.
\<close>

theorem bulkLoad_separator_not_strict:
  "case bulkLoad BPTree_open_new same_key_102 of
     Inl e \<Rightarrow> False
   | Inr (ok, t) \<Rightarrow>
       (case readNode t (root_id t) of
          None \<Rightarrow> False
        | Some root_node \<Rightarrow>
            \<not> is_leaf root_node \<and> num_keys root_node = 1 \<and> keys root_node 0 = 5
            \<and> (case readNode t (children root_node 0) of
                  None \<Rightarrow> False
                | Some leaf \<Rightarrow> is_leaf leaf \<and> num_keys leaf = 101 \<and> keys leaf 0 = 5 \<and> keys leaf 100 = 5)
            \<and> BPTree_search t 5 = Some (Inr [RecordPointer 1 9]))"
  by code_simp

text \<open>
  Claim C1, evaluated on the code. On the index holding 102 entries with key 5,
  \<open>removeRange(5, 5)\<close> of \<open>bptree.h\<close> returns 1 and leaves the empty tree, so 102 entries
  with a key in the range were removed; the variant of \<open>bptree.cpp\<close> returns 1 as well,
  keeps \<open>root_id\<close> and two levels, and 101 entries with key 5 stay in the first leaf.
\<close>

theorem removeRange_count_differs:
  "case bulkLoad BPTree_open_new same_key_102 of
     Inl e \<Rightarrow> False
   | Inr (ok, t) \<Rightarrow>
       (case removeRange t 5 5 of
          Some (Inr (removed_count, t')) \<Rightarrow> removed_count = 1 \<and> root_id t' = - 1 \<and> getNumLevels t' = Some 0
        | _ \<Rightarrow> False)
       \<and> (case removeRange_cpp t 5 5 of
            Some (Inr (removed_count, t')) \<Rightarrow>
              removed_count = 1 \<and> root_id t' = 3 \<and> getNumLevels t' = Some 2
              \<and> (case readNode t' 1 of None \<Rightarrow> False | Some leaf \<Rightarrow> num_keys leaf = 101 \<and> keys leaf 0 = 5)
          | _ \<Rightarrow> False)"
  by code_simp

text \<open>
  Claim C2, evaluated on the code. Three entries are bulk-loaded and \<open>removeRange(4, 6)\<close>
  removes one; the two survivors are rebuilt into a single leaf with node id 0. The bulk
  load of the survivors from the reset state allocates one node (\<open>next_node_id = 1\<close>),
  and \<open>getNumNodes()\<close> is 251 after \<open>removeRange\<close>.
\<close>

theorem removeRange_node_count_251:
  "case bulkLoad BPTree_open_new three_entries of
     Inl e \<Rightarrow> False
   | Inr (ok, t) \<Rightarrow>
       (case removeRange t 4 6 of
          Some (Inr (removed_count, t')) \<Rightarrow>
            removed_count = 1 \<and> root_id t' = 0 \<and> getNumLevels t' = Some 1
            \<and> rangeSearch t' 0 10 = Some (Inr [RecordPointer 0 0, RecordPointer 0 2])
            \<and> getNumNodes t' = 251
        | _ \<Rightarrow> False)
       \<and> (case bulkLoad (t\<lparr> root_id := - 1, next_node_id := 0 \<rparr>)
                   [(3, RecordPointer 0 0), (7, RecordPointer 0 2)] of
            Inl e \<Rightarrow> False
          | Inr (ok', t2) \<Rightarrow> next_node_id t2 = 1)"
  by code_simp

text \<open>
  Claim C9. The bulk load of 101 entries into a freshly opened index gives one leaf with
  \<open>num_keys = MAX_KEYS = 101\<close>. \<open>insert(50, ptr)\<close> finds that leaf, takes the branch for a
  full leaf, and \<open>insertIntoLeaf\<close> runs first: the position is 49 and the first step of the
  shift assigns \<open>keys[101] = keys[100]\<close>, outside the 101 slots of \<open>keys\<close>.
\<close>

theorem insert_into_full_leaf_out_of_bounds:
  "case bulkLoad BPTree_open_new keys_1_to_101 of
     Inl e \<Rightarrow> False
   | Inr (ok, t) \<Rightarrow>
       (case findLeaf t 50 of Some (Inr leaf_id) \<Rightarrow> leaf_id = 1 | _ \<Rightarrow> False)
       \<and> (case readNode t 1 of
             None \<Rightarrow> False
           | Some leaf \<Rightarrow>
               is_leaf leaf \<and> num_keys leaf = MAX_KEYS \<and> \<not> num_keys leaf < order
               \<and> insert_pos leaf 50 0 = Inr 49
               \<and> get_key leaf 100 = Inr 101
               \<and> (case set_key leaf 101 101 of Inl e \<Rightarrow> e = OutOfBounds | Inr _ \<Rightarrow> False)
               \<and> (case shift_leaf_right leaf (num_keys leaf) 49 of
                     Inl e \<Rightarrow> e = OutOfBounds | Inr _ \<Rightarrow> False))
       \<and> (case insertIntoLeaf t 1 50 (RecordPointer 2 0) of Inl e \<Rightarrow> e = OutOfBounds | Inr _ \<Rightarrow> False)
       \<and> (case BPTree_insert t 50 (RecordPointer 2 0) of
             Some (Inl e) \<Rightarrow> e = OutOfBounds | _ \<Rightarrow> False)"
  by code_simp

section \<open>Bulk load of more than \<open>order * order\<close> entries\<close>

text \<open>
  The tree that \<open>bulkLoad\<close> builds is described level by level: the leaves hold the runs of
  the sorted entries, and a parent holds a group of node ids and, as separators, \<open>keys[0]\<close>
  of each child after the first, whether that child is a leaf or not.
\<close>

subsection \<open>Runs and leaves\<close>

declare chunk.simps [simp del]

lemma chunk_Nil [simp]: "chunk n [] = []"
  by (simp add: chunk.simps)

lemma chunk_step: "xs \<noteq> [] \<Longrightarrow> 0 < n \<Longrightarrow> chunk n xs = take n xs # chunk n (drop n xs)"
  by (subst chunk.simps) simp

lemma set_chunk: "g < length (chunk n xs) \<Longrightarrow> set (chunk n xs ! g) \<subseteq> set xs"
proof (induction n xs arbitrary: g rule: chunk.induct)
  case (1 n xs)
  show ?case
  proof (cases "xs = [] \<or> n = 0")
    case True
    then show ?thesis
      using "1.prems" by (simp add: chunk.simps)
  next
    case False
    then have c: "chunk n xs = take n xs # chunk n (drop n xs)"
      by (simp add: chunk_step)
    show ?thesis
    proof (cases g)
      case 0
      then show ?thesis
        using c by (simp add: set_take_subset)
    next
      case (Suc g')
      then have "set (chunk n (drop n xs) ! g') \<subseteq> set (drop n xs)"
        using "1.prems" c False by (intro "1.IH") simp_all
      then show ?thesis
        using c Suc set_drop_subset [of n xs] by auto
    qed
  qed
qed

lemma order_101: "order = 101"
  by (simp add: order_def MAX_KEYS_def)

lemma encode_ptr_enc: "encodable p \<Longrightarrow> encode_ptr p = Inr (enc p)"
  by (simp add: encodable_def encode_ptr_def enc_def)

lemma createNode_ok:
  "0 \<le> next_node_id t \<Longrightarrow>
     createNode t n = (next_node_id t,
        t\<lparr> next_node_id := next_node_id t + 1, nodes := (nodes t)(next_node_id t \<mapsto> n) \<rparr>)"
  by (simp add: createNode_def writeNode_def Let_def)

lemma writeNode_ok:
  "0 \<le> node_id \<Longrightarrow> writeNode t node_id n = (True, t\<lparr> nodes := (nodes t)(node_id \<mapsto> n) \<rparr>)"
  by (simp add: writeNode_def)

lemma readNode_ok: "0 \<le> node_id \<Longrightarrow> readNode t node_id = nodes t node_id"
  by (simp add: readNode_def)

lemma holds_entries_new: "holds_entries (BPTreeNode_new\<lparr> is_leaf := True \<rparr>) []"
  by (simp add: holds_entries_def BPTreeNode_new_def)

lemma holds_entries_snoc:
  assumes "holds_entries leaf es" and "length es < MAX_KEYS" and "encodable p"
  shows "\<exists>leaf2 leaf3. set_key leaf (num_keys leaf) k = Inr leaf2
      \<and> set_child leaf2 (num_keys leaf2) (enc p) = Inr leaf3
      \<and> holds_entries (leaf3\<lparr> num_keys := num_keys leaf3 + 1 \<rparr>) (es @ [(k, p)])
      \<and> next_leaf (leaf3\<lparr> num_keys := num_keys leaf3 + 1 \<rparr>) = next_leaf leaf"
  using assms
  by (auto simp: holds_entries_def set_key_def set_child_def nth_append)


lemma length_concat_full:
  "\<forall>c \<in> set full. length c = n \<Longrightarrow> length (concat full) = length full * n"
  by (induction full) auto

declare fill_leaves.simps [simp del]

lemma fill_leaves_step_new:
  assumes "0 \<le> next_node_id t" and "encodable p" and "i mod order = 0" and "cur = - 1"
  shows "fill_leaves ((k, p) # rest) i cur leaf lns t =
     fill_leaves rest (Suc i) (next_node_id t)
       ((BPTreeNode_new\<lparr> is_leaf := True \<rparr>)\<lparr> keys := (keys (BPTreeNode_new\<lparr> is_leaf := True \<rparr>))(0 := k),
          children := (children (BPTreeNode_new\<lparr> is_leaf := True \<rparr>))(0 := enc p), num_keys := 1 \<rparr>)
       lns
       (t\<lparr> next_node_id := next_node_id t + 1,
           nodes := (nodes t)(next_node_id t \<mapsto> BPTreeNode_new\<lparr> is_leaf := True \<rparr>) \<rparr>)"
  using assms
  by (simp add: fill_leaves.simps createNode_ok encode_ptr_enc set_key_def set_child_def MAX_KEYS_def
      BPTreeNode_new_def)


lemma first_entry_leaf:
  "holds_entries
     ((BPTreeNode_new\<lparr> is_leaf := True \<rparr>)\<lparr> keys := (keys (BPTreeNode_new\<lparr> is_leaf := True \<rparr>))(0 := k),
          children := (children (BPTreeNode_new\<lparr> is_leaf := True \<rparr>))(0 := enc p), num_keys := 1 \<rparr>)
     [(k, p)]"
  by (simp add: holds_entries_def BPTreeNode_new_def)

lemma fill_leaves_step:
  fixes t :: "'k::zero BPTree"
  assumes n0: "0 \<le> n0" and p: "encodable p" and inv: "fl_inv n0 t0 full curl cur leaf lns t"
  shows "\<exists>full' curl' cur' leaf' lns' t'.
      fill_leaves ((k, p) # rest) (length (concat full @ curl)) cur leaf lns t
        = fill_leaves rest (Suc (length (concat full @ curl))) cur' leaf' lns' t'
      \<and> fl_inv n0 t0 full' curl' cur' leaf' lns' t'
      \<and> concat full' @ curl' = concat full @ curl @ [(k, p)]"
proof -
  let ?i = "length (concat full @ curl)"
  have len: "?i = length full * order + length curl"
    using inv by (simp add: fl_inv_def length_concat_full)
  have nn: "0 \<le> next_node_id t"
    using inv n0 by (simp add: fl_inv_def)
  let ?fresh = "(BPTreeNode_new\<lparr> is_leaf := True \<rparr>) :: 'k BPTreeNode"
  let ?first = "?fresh\<lparr> keys := (keys ?fresh)(0 := k), children := (children ?fresh)(0 := enc p), num_keys := 1 \<rparr>"
  have le: "length curl \<le> order"
    using inv by (simp add: fl_inv_def)
  consider (A) "curl = []" | (B) "length curl = order" | (C) "curl \<noteq> []" "length curl < order"
    using le le_neq_implies_less by blast
  then show ?thesis
  proof cases
    case A
    then have e: "full = []" "cur = - 1" "next_node_id t = n0" "lns = []"
      using inv by (auto simp: fl_inv_def)
    let ?t' = "t\<lparr> next_node_id := next_node_id t + 1, nodes := (nodes t)(next_node_id t \<mapsto> ?fresh) \<rparr>"
    have step: "fill_leaves ((k, p) # rest) ?i cur leaf lns t
        = fill_leaves rest (Suc ?i) (next_node_id t) ?first lns ?t'"
      using nn p A e by (intro fill_leaves_step_new) simp_all
    have inv': "fl_inv n0 t0 [] [(k, p)] (next_node_id t) ?first lns ?t'"
      using inv A e first_entry_leaf [where k = k and p = p]
      by (simp add: fl_inv_def order_101 BPTreeNode_new_def)
    show ?thesis
      using step inv' A e by (intro exI[of _ "[]"] exI[of _ "[(k, p)]"]) auto
  next
    case B
    then have ne: "curl \<noteq> []"
      by (auto simp: order_101)
    have cur: "cur = n0 + int (length full)" and nx: "next_node_id t = n0 + int (length full) + 1"
      and lns: "lns = map (\<lambda>j. n0 + int j) [0..<length full]"
      using inv ne by (auto simp: fl_inv_def)
    have m: "?i mod order = 0"
      using len B by simp
    have c0: "0 \<le> cur" "cur \<noteq> - 1"
      using cur n0 by auto
    let ?t1 = "t\<lparr> nodes := (nodes t)(cur \<mapsto> leaf) \<rparr>"
    let ?t' = "?t1\<lparr> next_node_id := next_node_id ?t1 + 1, nodes := (nodes ?t1)(next_node_id ?t1 \<mapsto> ?fresh) \<rparr>"
    have step: "fill_leaves ((k, p) # rest) ?i cur leaf lns t
        = fill_leaves rest (Suc ?i) (next_node_id t) ?first (lns @ [cur]) ?t'"
      using nn p m c0
      by (simp add: fill_leaves.simps createNode_ok writeNode_ok encode_ptr_enc set_key_def set_child_def
          MAX_KEYS_def BPTreeNode_new_def)
    have inv': "fl_inv n0 t0 (full @ [curl]) [(k, p)] (next_node_id t) ?first (lns @ [cur]) ?t'"
      unfolding fl_inv_def
    proof (intro conjI)
      show "\<forall>c\<in>set (full @ [curl]). length c = order"
        using inv B by (auto simp: fl_inv_def)
      show "length [(k, p)] \<le> order"
        by (simp add: order_101)
      show "[(k, p)] = [] \<longrightarrow> full @ [curl] = [] \<and> next_node_id t = - 1"
        by simp
      show "[(k, p)] \<noteq> [] \<longrightarrow> next_node_id t = n0 + int (length (full @ [curl]))"
        using nx by simp
      show "lns @ [cur] = map (\<lambda>j. n0 + int j) [0..<length (full @ [curl])]"
        using lns cur by simp
      show "next_node_id ?t' = n0 + int (length (full @ [curl])) + (if [(k, p)] = [] then 0 else 1)"
        using nx by simp
      show "holds_entries ?first [(k, p)]"
        by (rule first_entry_leaf)
      show "next_leaf ?first = - 1"
        by (simp add: BPTreeNode_new_def)
      show "\<forall>j<length (full @ [curl]). \<exists>nd. nodes ?t' (n0 + int j) = Some nd
              \<and> holds_entries nd ((full @ [curl]) ! j) \<and> next_leaf nd = - 1"
      proof (intro allI impI)
        fix j
        assume j: "j < length (full @ [curl])"
        show "\<exists>nd. nodes ?t' (n0 + int j) = Some nd \<and> holds_entries nd ((full @ [curl]) ! j)
              \<and> next_leaf nd = - 1"
        proof (cases "j < length full")
          case True
          then obtain nd where "nodes t (n0 + int j) = Some nd" "holds_entries nd (full ! j)"
              "next_leaf nd = - 1"
            using inv by (auto simp: fl_inv_def)
          then show ?thesis
            using True cur nx by (simp add: nth_append)
        next
          case False
          then have "j = length full"
            using j by simp
          then show ?thesis
            using inv cur nx by (simp add: nth_append fl_inv_def)
        qed
      qed
      show "\<forall>node_id<n0. nodes ?t' node_id = nodes t0 node_id"
        using inv cur nx by (auto simp: fl_inv_def)
      show "root_id ?t' = root_id t0"
        using inv by (simp add: fl_inv_def)
    qed
    show ?thesis
      using step inv' by (intro exI[of _ "full @ [curl]"] exI[of _ "[(k, p)]"]) auto
  next
    case C
    have cur: "cur = n0 + int (length full)"
      using inv C by (auto simp: fl_inv_def)
    have m: "?i mod order \<noteq> 0"
      using len C by simp
    have h: "holds_entries leaf curl" "next_leaf leaf = - 1"
      using inv by (auto simp: fl_inv_def)
    have room: "length curl < MAX_KEYS"
      using C by (simp add: order_101 MAX_KEYS_def)
    from holds_entries_snoc [OF h(1) room p, where k = k]
    obtain leaf2 leaf3 where s: "set_key leaf (num_keys leaf) k = Inr leaf2"
        "set_child leaf2 (num_keys leaf2) (enc p) = Inr leaf3"
        "holds_entries (leaf3\<lparr> num_keys := num_keys leaf3 + 1 \<rparr>) (curl @ [(k, p)])"
        "next_leaf (leaf3\<lparr> num_keys := num_keys leaf3 + 1 \<rparr>) = next_leaf leaf"
      by blast
    have step: "fill_leaves ((k, p) # rest) ?i cur leaf lns t
        = fill_leaves rest (Suc ?i) cur (leaf3\<lparr> num_keys := num_keys leaf3 + 1 \<rparr>) lns t"
      using m p s by (simp add: fill_leaves.simps encode_ptr_enc)
    have inv': "fl_inv n0 t0 full (curl @ [(k, p)]) cur (leaf3\<lparr> num_keys := num_keys leaf3 + 1 \<rparr>) lns t"
      using inv C s(3,4) h(2) by (simp add: fl_inv_def)
    show ?thesis
      using step inv' by (intro exI[of _ full] exI[of _ "curl @ [(k, p)]"]) auto
  qed
qed

lemma fill_leaves_inv:
  fixes t :: "'k::zero BPTree"
  assumes "0 \<le> n0" and "\<forall>e \<in> set es. encodable (snd e)" and "fl_inv n0 t0 full curl cur leaf lns t"
  shows "\<exists>full' curl' cur' leaf' lns' t'.
      fill_leaves es (length (concat full @ curl)) cur leaf lns t = Inr (cur', leaf', lns', t')
      \<and> fl_inv n0 t0 full' curl' cur' leaf' lns' t'
      \<and> concat full' @ curl' = concat full @ curl @ es"
  using assms
proof (induction es arbitrary: full curl cur leaf lns t)
  case Nil
  then show ?case by (auto simp: fill_leaves.simps)
next
  case (Cons e es)
  obtain k p where e: "e = (k, p)"
    by (cases e)
  have p: "encodable p"
    using Cons.prems(2) e by simp
  from fill_leaves_step [OF Cons.prems(1) p Cons.prems(3), where k = k and rest = es]
  obtain full' curl' cur' leaf' lns' t' where
    step: "fill_leaves ((k, p) # es) (length (concat full @ curl)) cur leaf lns t
        = fill_leaves es (Suc (length (concat full @ curl))) cur' leaf' lns' t'"
    and inv': "fl_inv n0 t0 full' curl' cur' leaf' lns' t'"
    and c: "concat full' @ curl' = concat full @ curl @ [(k, p)]"
    by blast
  have l: "Suc (length (concat full @ curl)) = length (concat full' @ curl')"
    using c by simp
  from Cons.IH [OF Cons.prems(1) _ inv'] Cons.prems(2)
  obtain full'' curl'' cur'' leaf'' lns'' t'' where
    r: "fill_leaves es (length (concat full' @ curl')) cur' leaf' lns' t' = Inr (cur'', leaf'', lns'', t'')"
    and inv'': "fl_inv n0 t0 full'' curl'' cur'' leaf'' lns'' t''"
    and c': "concat full'' @ curl'' = concat full' @ curl' @ es"
    by auto
  have "fill_leaves (e # es) (length (concat full @ curl)) cur leaf lns t = Inr (cur'', leaf'', lns'', t'')"
    using step r l e by simp
  moreover have "concat full'' @ curl'' = concat full @ curl @ e # es"
    using c c' e by simp
  ultimately show ?case
    using inv'' by blast
qed


subsection \<open>Linking\<close>

lemma link_leaves_upt:
  fixes t :: "'k::zero BPTree"
  assumes "0 \<le> n0"
    and "\<forall>j. a \<le> j \<and> j < L \<longrightarrow> nodes t (n0 + int j) \<noteq> None"
  shows "root_id (link_leaves t (map (\<lambda>j. n0 + int j) [a..<L])) = root_id t
     \<and> next_node_id (link_leaves t (map (\<lambda>j. n0 + int j) [a..<L])) = next_node_id t
     \<and> (\<forall>node_id. nodes (link_leaves t (map (\<lambda>j. n0 + int j) [a..<L])) node_id =
           (if \<exists>j. a \<le> j \<and> j + 1 < L \<and> node_id = n0 + int j
            then map_option (\<lambda>nd. nd\<lparr> next_leaf := node_id + 1 \<rparr>) (nodes t node_id)
            else nodes t node_id))"
  using assms(2)
proof (induction "L - a" arbitrary: a t)
  case 0
  then have "[a..<L] = []"
    by simp
  then show ?case
    using 0 by auto
next
  case (Suc n)
  show ?case
  proof (cases "a + 1 < L")
    case False
    then have "[a..<L] = [a]"
      using Suc.hyps(2) by (simp add: upt_rec)
    then show ?thesis
      using False by auto
  next
    case True
    have l: "[a..<L] = a # (a + 1) # [a + 2..<L]"
      using True by (simp add: upt_rec)
    have l2: "[a + 1..<L] = (a + 1) # [a + 2..<L]"
      using True by (simp add: upt_rec)
    obtain nd where nd: "nodes t (n0 + int a) = Some nd"
      using Suc.prems True by (metis le_refl less_imp_le_nat less_add_one less_trans not_None_eq)
    let ?t1 = "t\<lparr> nodes := (nodes t)(n0 + int a \<mapsto> nd\<lparr> next_leaf := n0 + int (a + 1) \<rparr>) \<rparr>"
    have lhs: "map (\<lambda>j. n0 + int j) [a..<L]
        = (n0 + int a) # (n0 + int (a + 1)) # map (\<lambda>j. n0 + int j) [a + 2..<L]"
      by (simp only: l list.map)
    have rhs: "map (\<lambda>j. n0 + int j) [a + 1..<L]
        = (n0 + int (a + 1)) # map (\<lambda>j. n0 + int j) [a + 2..<L]"
      by (simp only: l2 list.map)
    have step: "link_leaves t (map (\<lambda>j. n0 + int j) [a..<L])
        = link_leaves ?t1 (map (\<lambda>j. n0 + int j) [a + 1..<L])"
      unfolding lhs rhs using nd assms(1)
      by (simp add: readNode_ok writeNode_ok Let_def)
    have pre: "\<forall>j. a + 1 \<le> j \<and> j < L \<longrightarrow> nodes ?t1 (n0 + int j) \<noteq> None"
      using Suc.prems by auto
    have n: "n = L - (a + 1)"
      using Suc.hyps(2) by simp
    note IH = Suc.hyps(1) [OF n pre]
    show ?thesis
      unfolding step
    proof (intro conjI allI)
      show "root_id (link_leaves ?t1 (map (\<lambda>j. n0 + int j) [a + 1..<L])) = root_id t"
        using IH by simp
      show "next_node_id (link_leaves ?t1 (map (\<lambda>j. n0 + int j) [a + 1..<L])) = next_node_id t"
        using IH by simp
      fix node_id
      have v: "nodes (link_leaves ?t1 (map (\<lambda>j. n0 + int j) [a + 1..<L])) node_id =
           (if \<exists>j. a + 1 \<le> j \<and> j + 1 < L \<and> node_id = n0 + int j
            then map_option (\<lambda>nd. nd\<lparr> next_leaf := node_id + 1 \<rparr>) (nodes ?t1 node_id)
            else nodes ?t1 node_id)"
        using IH by blast
      show "nodes (link_leaves ?t1 (map (\<lambda>j. n0 + int j) [a + 1..<L])) node_id =
           (if \<exists>j. a \<le> j \<and> j + 1 < L \<and> node_id = n0 + int j
            then map_option (\<lambda>nd. nd\<lparr> next_leaf := node_id + 1 \<rparr>) (nodes t node_id)
            else nodes t node_id)"
      proof (cases "node_id = n0 + int a")
        case True
        then have "\<not> (\<exists>j. a + 1 \<le> j \<and> j + 1 < L \<and> node_id = n0 + int j)"
          by auto
        moreover have "\<exists>j. a \<le> j \<and> j + 1 < L \<and> node_id = n0 + int j"
          using True \<open>a + 1 < L\<close> by auto
        ultimately show ?thesis
          using v True nd by simp
      next
        case False
        then have "(\<exists>j. a + 1 \<le> j \<and> j + 1 < L \<and> node_id = n0 + int j)
            \<longleftrightarrow> (\<exists>j. a \<le> j \<and> j + 1 < L \<and> node_id = n0 + int j)"
          by (metis Suc_eq_plus1 Suc_leI le_neq_implies_less less_imp_le_nat less_add_one order_less_le_trans)
        moreover have "nodes ?t1 node_id = nodes t node_id"
          using False by simp
        ultimately show ?thesis
          by (simp only: v)
      qed
    qed
  qed
qed

subsection \<open>One level of parents\<close>

declare fill_internal.simps [simp del]

lemma fill_internal_inv:
  fixes t :: "'k::zero BPTree"
  assumes "rest \<noteq> []" and "length pre + length rest \<le> MAX_KEYS"
    and "internal_part t p0 (length pre) (pre @ rest)"
  shows "\<exists>p. fill_internal t rest (length pre) p0 = Inr p \<and> internal_over t p (pre @ rest)"
  using assms
proof (induction rest arbitrary: pre p0)
  case Nil
  then show ?case by simp
next
  case (Cons c rest)
  let ?d = "length pre"
  let ?n1 = "p0\<lparr> children := (children p0)(?d := c) \<rparr>"
  have d: "?d < MAX_KEYS + 1" "?d < MAX_KEYS"
    using Cons.prems(2) by auto
  have sc: "set_child p0 ?d c = Inr ?n1"
    using d by (simp add: set_child_def)
  note part = Cons.prems(3) [unfolded internal_part_def]
  show ?case
  proof (cases rest)
    case Nil
    have r: "fill_internal t (c # rest) ?d p0 = Inr ?n1"
      using sc Nil by (simp add: fill_internal.simps)
    have "internal_over t ?n1 (pre @ [c])"
      unfolding internal_over_def using part Nil
      by (auto simp: nth_append)
    then show ?thesis
      using r Nil by auto
  next
    case (Cons c' rest')
    let ?k = "first_key t c'"
    let ?n2 = "?n1\<lparr> keys := (keys ?n1)(?d := ?k) \<rparr>"
    let ?p1 = "?n2\<lparr> num_keys := num_keys ?n2 + 1 \<rparr>"
    have nk: "num_keys ?n1 = ?d"
      using part by simp
    have r: "fill_internal t (c # rest) ?d p0 = fill_internal t rest (Suc ?d) ?p1"
      using sc Cons d nk
      by (simp add: fill_internal.simps first_key_def get_key_def set_key_def MAX_KEYS_def Let_def)
    have part': "internal_part t ?p1 (length (pre @ [c])) ((pre @ [c]) @ rest)"
      unfolding internal_part_def using part Cons
      by (auto simp: nth_append less_Suc_eq)
    have "\<exists>p. fill_internal t rest (length (pre @ [c])) ?p1 = Inr p \<and> internal_over t p ((pre @ [c]) @ rest)"
      using Cons Cons.prems(2) part' by (intro Cons.IH) simp_all
    then show ?thesis
      using r by simp
  qed
qed

lemma fill_internal_group:
  fixes t :: "'k::zero BPTree"
  assumes "grp \<noteq> []" and "length grp \<le> MAX_KEYS"
  shows "\<exists>p. fill_internal t grp 0 (BPTreeNode_new\<lparr> is_leaf := False \<rparr>) = Inr p \<and> internal_over t p grp"
  using fill_internal_inv [of grp "[]" t "BPTreeNode_new\<lparr> is_leaf := False \<rparr>"] assms
  by (simp add: internal_part_def BPTreeNode_new_def)


lemma first_key_cong: "readNode t1 node_id = readNode t node_id \<Longrightarrow> first_key t1 node_id = first_key t node_id"
  by (simp add: first_key_def)

lemma internal_over_cong:
  assumes "\<forall>node_id \<in> set grp. readNode t1 node_id = readNode t node_id"
  shows "internal_over t1 p grp = internal_over t p grp"
proof -
  have "first_key t1 (grp ! (d + 1)) = first_key t (grp ! (d + 1))" if "d + 1 < length grp" for d
    using that assms by (intro first_key_cong) simp
  then show ?thesis
    unfolding internal_over_def by auto
qed

declare build_level.simps [simp del]

lemma upt_Suc_front: "map f [0..<Suc m] = f 0 # map (\<lambda>g. f (Suc g)) [0..<m]"
  by (simp only: upt_conv_Cons [OF zero_less_Suc] list.map map_Suc_upt [symmetric] map_map o_def)

lemma build_level_chunks:
  fixes t :: "'k::zero BPTree"
  assumes "0 \<le> next_node_id t" and "\<forall>node_id \<in> set ids. node_id < next_node_id t"
  shows "\<exists>t'. build_level t ids acc =
        Inr (acc @ map (\<lambda>g. next_node_id t + int g) [0..<length (chunk order ids)], t')
     \<and> next_node_id t' = next_node_id t + int (length (chunk order ids))
     \<and> root_id t' = root_id t
     \<and> (\<forall>node_id. node_id < next_node_id t \<longrightarrow> nodes t' node_id = nodes t node_id)
     \<and> (\<forall>g<length (chunk order ids). \<exists>p. nodes t' (next_node_id t + int g) = Some p
            \<and> internal_over t p (chunk order ids ! g))"
  using assms
proof (induction t ids acc rule: build_level.induct)
  case (1 t remaining internal_nodes)
  show ?case
  proof (cases "remaining = []")
    case True
    then show ?thesis
      by (simp add: build_level.simps)
  next
    case False
    let ?grp = "take order remaining"
    let ?next = "next_node_id t"
    have g: "?grp \<noteq> []" "length ?grp \<le> MAX_KEYS"
      using False by (simp_all add: order_101 MAX_KEYS_def)
    from fill_internal_group [OF g, of t]
    obtain p where p: "fill_internal t ?grp 0 (BPTreeNode_new\<lparr> is_leaf := False \<rparr>) = Inr p"
        and po: "internal_over t p ?grp"
      by blast
    let ?t1 = "t\<lparr> next_node_id := ?next + 1, nodes := (nodes t)(?next \<mapsto> p) \<rparr>"
    have cn: "createNode t p = (?next, ?t1)"
      using "1.prems"(1) by (rule createNode_ok)
    have step: "build_level t remaining internal_nodes
        = build_level ?t1 (drop order remaining) (internal_nodes @ [?next])"
      using False p cn by (subst build_level.simps) simp
    have pre1: "0 \<le> next_node_id ?t1"
      using "1.prems"(1) by simp
    have pre2: "\<forall>node_id \<in> set (drop order remaining). node_id < next_node_id ?t1"
    proof
      fix node_id
      assume "node_id \<in> set (drop order remaining)"
      then have "node_id \<in> set remaining"
        by (rule in_set_dropD)
      then show "node_id < next_node_id ?t1"
        using "1.prems"(2) by auto
    qed
    note IH = "1.IH" [OF False p cn [symmetric] pre1 pre2]
    let ?rest = "chunk order (drop order remaining)"
    have c: "chunk order remaining = ?grp # ?rest"
      using False by (simp add: chunk_step order_101)
    from IH obtain t' where
      r: "build_level ?t1 (drop order remaining) (internal_nodes @ [?next]) =
            Inr ((internal_nodes @ [?next]) @ map (\<lambda>g. next_node_id ?t1 + int g) [0..<length ?rest], t')"
      and nx: "next_node_id t' = next_node_id ?t1 + int (length ?rest)"
      and rt: "root_id t' = root_id ?t1"
      and fr: "\<forall>node_id. node_id < next_node_id ?t1 \<longrightarrow> nodes t' node_id = nodes ?t1 node_id"
      and nw: "\<forall>g<length ?rest. \<exists>p. nodes t' (next_node_id ?t1 + int g) = Some p
            \<and> internal_over ?t1 p (?rest ! g)"
      by blast
    have ids: "(internal_nodes @ [?next]) @ map (\<lambda>g. next_node_id ?t1 + int g) [0..<length ?rest]
        = internal_nodes @ map (\<lambda>g. ?next + int g) [0..<length (chunk order remaining)]"
    proof -
      have "map (\<lambda>g. ?next + int g) [0..<Suc (length ?rest)]
          = (?next + int 0) # map (\<lambda>g. ?next + int (Suc g)) [0..<length ?rest]"
        by (rule upt_Suc_front)
      also have "\<dots> = ?next # map (\<lambda>g. next_node_id ?t1 + int g) [0..<length ?rest]"
        by (simp add: add.assoc)
      finally show ?thesis
        unfolding c by (simp del: upt_Suc)
    qed
    have new: "\<exists>q. nodes t' (?next + int g) = Some q \<and> internal_over t q (chunk order remaining ! g)"
      if gl: "g < length (chunk order remaining)" for g
    proof (cases g)
      case 0
      have "nodes t' ?next = nodes ?t1 ?next"
        using fr by simp
      then show ?thesis
        using 0 c po by simp
    next
      case (Suc g')
      then have g': "g' < length ?rest"
        using gl c by simp
      then obtain q where q: "nodes t' (next_node_id ?t1 + int g') = Some q"
          "internal_over ?t1 q (?rest ! g')"
        using nw by blast
      have sub: "set (?rest ! g') \<subseteq> set remaining"
        using set_chunk [OF g'] set_drop_subset [of order remaining] by blast
      have "\<forall>node_id \<in> set (?rest ! g'). readNode ?t1 node_id = readNode t node_id"
        using sub "1.prems"(2) by (auto simp: readNode_def)
      then have io: "internal_over t q (?rest ! g')"
        using q(2) internal_over_cong by blast
      have e: "?next + int g = next_node_id ?t1 + int g'"
        using Suc by simp
      have e2: "chunk order remaining ! g = ?rest ! g'"
        using c Suc by simp
      show ?thesis
        unfolding e e2 using q(1) io by blast
    qed
    show ?thesis
    proof (intro exI [of _ t'] conjI allI impI)
      show "build_level t remaining internal_nodes =
          Inr (internal_nodes @ map (\<lambda>g. ?next + int g) [0..<length (chunk order remaining)], t')"
        using step r ids by simp
      show "next_node_id t' = ?next + int (length (chunk order remaining))"
        using nx c by simp
      show "root_id t' = root_id t"
        using rt by simp
      show "nodes t' node_id = nodes t node_id" if "node_id < ?next" for node_id
        using fr that by simp
      show "\<exists>p. nodes t' (?next + int g) = Some p \<and> internal_over t p (chunk order remaining ! g)"
        if "g < length (chunk order remaining)" for g
        using new that by blast
    qed
  qed
qed

lemma chunk_concat:
  assumes "\<forall>c \<in> set full. length c = n" and "curl \<noteq> []" and "length curl \<le> n"
  shows "chunk n (concat full @ curl) = full @ [curl]"
  using assms(1)
proof (induction full)
  case Nil
  have n: "0 < n"
    using assms(2,3) by (cases curl) auto
  then show ?case
    using assms by (simp add: chunk_step)
next
  case (Cons c full)
  have n: "0 < n"
    using assms(2,3) by (cases curl) auto
  have "c \<noteq> []"
    using Cons.prems n by auto
  then have "chunk n (concat (c # full) @ curl)
      = take n (c @ concat full @ curl) # chunk n (drop n (c @ concat full @ curl))"
    using n by (simp add: chunk_step)
  also have "\<dots> = c # chunk n (concat full @ curl)"
    using Cons.prems by simp
  finally show ?case
    using Cons by simp
qed

lemma chunk_nth:
  assumes "0 < n" and "j < length (chunk n xs)"
  shows "chunk n xs ! j = take n (drop (j * n) xs)"
  using assms
proof (induction n xs arbitrary: j rule: chunk.induct)
  case (1 n xs)
  show ?case
  proof (cases "xs = []")
    case True
    then show ?thesis
      using "1.prems" by simp
  next
    case False
    then have c: "chunk n xs = take n xs # chunk n (drop n xs)"
      using "1.prems"(1) by (simp add: chunk_step)
    show ?thesis
    proof (cases j)
      case 0
      then show ?thesis
        using c by simp
    next
      case (Suc j')
      then have "j' < length (chunk n (drop n xs))"
        using "1.prems"(2) c by simp
      then have "chunk n (drop n xs) ! j' = take n (drop (j' * n) (drop n xs))"
        using False "1.prems"(1) by (intro "1.IH") simp_all
      then show ?thesis
        using c Suc by (simp add: add.commute)
    qed
  qed
qed

lemma chunk_length:
  assumes "0 < n"
  shows "length (chunk n xs) = (length xs + (n - 1)) div n"
  using assms
proof (induction n xs rule: chunk.induct)
  case (1 n xs)
  show ?case
  proof (cases "xs = []")
    case True
    then show ?thesis
      using "1.prems" by simp
  next
    case False
    then have c: "chunk n xs = take n xs # chunk n (drop n xs)"
      using "1.prems" by (simp add: chunk_step)
    have IH: "length (chunk n (drop n xs)) = (length (drop n xs) + (n - 1)) div n"
      using False "1.prems" by (intro "1.IH") simp_all
    let ?m = "length xs"
    have m: "0 < ?m"
      using False by simp
    have "Suc ((?m - n + (n - 1)) div n) = (?m + (n - 1)) div n"
    proof (cases "?m \<le> n")
      case True
      obtain m' where m': "?m = Suc m'"
        using m by (cases ?m) auto
      have "n * 1 \<le> ?m + (n - 1)" and "?m + (n - 1) < n * Suc 1"
        using True "1.prems" unfolding m' by simp_all
      then have "(?m + (n - 1)) div n = 1"
        by (rule div_nat_eqI)
      moreover have "(?m - n + (n - 1)) div n = 0"
        using True "1.prems" by simp
      ultimately show ?thesis
        by simp
    next
      case False
      then have "?m + (n - 1) = (?m - n + (n - 1)) + n"
        by simp
      moreover have "((?m - n + (n - 1)) + n) div n = (?m - n + (n - 1)) div n + 1"
        using "1.prems" by (intro div_add_self2) simp
      ultimately show ?thesis
        by (simp only: Suc_eq_plus1)
    qed
    then show ?thesis
      using c IH by simp
  qed
qed

lemma fill_leaves_all:
  fixes t :: "'k::zero BPTree"
  assumes n0: "0 \<le> next_node_id t" and ne: "es \<noteq> []" and enc: "\<forall>e \<in> set es. encodable (snd e)"
  shows "\<exists>cur leaf lns t1. fill_leaves es 0 (- 1) BPTreeNode_new [] t = Inr (cur, leaf, lns, t1)
     \<and> cur \<noteq> - 1
     \<and> lns @ [cur] = map (\<lambda>j. next_node_id t + int j) [0..<length (chunk order es)]
     \<and> next_node_id (snd (writeNode t1 cur leaf)) = next_node_id t + int (length (chunk order es))
     \<and> root_id (snd (writeNode t1 cur leaf)) = root_id t
     \<and> (\<forall>node_id. node_id < next_node_id t \<longrightarrow>
           nodes (snd (writeNode t1 cur leaf)) node_id = nodes t node_id)
     \<and> (\<forall>j<length (chunk order es). \<exists>nd.
           nodes (snd (writeNode t1 cur leaf)) (next_node_id t + int j) = Some nd
           \<and> holds_entries nd (chunk order es ! j) \<and> next_leaf nd = - 1)"
proof -
  let ?n0 = "next_node_id t"
  have init: "fl_inv ?n0 t [] [] (- 1) BPTreeNode_new [] t"
    by (simp add: fl_inv_def holds_entries_def BPTreeNode_new_def)
  from fill_leaves_inv [OF n0 enc init]
  obtain full curl cur leaf lns t1 where
    r: "fill_leaves es 0 (- 1) BPTreeNode_new [] t = Inr (cur, leaf, lns, t1)"
    and inv: "fl_inv ?n0 t full curl cur leaf lns t1"
    and c: "concat full @ curl = es"
    by auto
  note i = inv [unfolded fl_inv_def]
  have cne: "curl \<noteq> []"
    using i c ne by auto
  have ch: "chunk order es = full @ [curl]"
    using chunk_concat [of full order curl] i cne c by simp
  have cur: "cur = ?n0 + int (length full)"
    using i cne by simp
  have c0: "0 \<le> cur"
    using cur n0 by simp
  let ?t2 = "t1\<lparr> nodes := (nodes t1)(cur \<mapsto> leaf) \<rparr>"
  have w: "snd (writeNode t1 cur leaf) = ?t2"
    using c0 by (simp add: writeNode_ok)
  have lv: "\<exists>nd. nodes ?t2 (?n0 + int j) = Some nd \<and> holds_entries nd (chunk order es ! j)
        \<and> next_leaf nd = - 1" if j: "j < length (chunk order es)" for j
  proof (cases "j < length full")
    case True
    then obtain nd where "nodes t1 (?n0 + int j) = Some nd" "holds_entries nd (full ! j)"
        "next_leaf nd = - 1"
      using i by blast
    then show ?thesis
      using True cur ch by (simp add: nth_append)
  next
    case False
    then have "j = length full"
      using j ch by simp
    then show ?thesis
      using i cur ch by (simp add: nth_append)
  qed
  show ?thesis
  proof (intro exI [of _ cur] exI [of _ leaf] exI [of _ lns] exI [of _ t1] conjI)
    show "fill_leaves es 0 (- 1) BPTreeNode_new [] t = Inr (cur, leaf, lns, t1)"
      by (rule r)
    show "cur \<noteq> - 1"
      using c0 by simp
    show "lns @ [cur] = map (\<lambda>j. ?n0 + int j) [0..<length (chunk order es)]"
      using i cur ch by simp
    show "next_node_id (snd (writeNode t1 cur leaf)) = ?n0 + int (length (chunk order es))"
      using i cne ch w by simp
    show "root_id (snd (writeNode t1 cur leaf)) = root_id t"
      using i w by simp
    show "\<forall>node_id. node_id < ?n0 \<longrightarrow> nodes (snd (writeNode t1 cur leaf)) node_id = nodes t node_id"
      using i w cur by simp
    show "\<forall>j<length (chunk order es). \<exists>nd.
           nodes (snd (writeNode t1 cur leaf)) (?n0 + int j) = Some nd
           \<and> holds_entries nd (chunk order es ! j) \<and> next_leaf nd = - 1"
      unfolding w using lv by blast
  qed
qed

lemma holds_entries_next_leaf [simp]:
  "holds_entries (nd\<lparr> next_leaf := x \<rparr>) es = holds_entries nd es"
  by (simp add: holds_entries_def)

lemma bulkLoad_leaves:
  fixes t :: "'k::{linorder,zero} BPTree"
  assumes n0: "0 \<le> next_node_id t" and ne: "es \<noteq> []" and enc: "\<forall>e \<in> set es. encodable (snd e)"
    and sorted: "sort_entries es = es"
  shows "\<exists>t3. leaf_level t3 (next_node_id t) (chunk order es)
     \<and> next_node_id t3 = next_node_id t + int (length (chunk order es))
     \<and> bulkLoad t es =
         (case build_levels t3 (map (\<lambda>j. next_node_id t + int j) [0..<length (chunk order es)]) of
            Inl e \<Rightarrow> Inl e
          | Inr (roots, t4) \<Rightarrow> Inr (True, if roots \<noteq> [] then t4\<lparr> root_id := hd roots \<rparr> else t4))"
proof -
  let ?n0 = "next_node_id t"
  let ?L = "length (chunk order es)"
  let ?ids = "map (\<lambda>j. ?n0 + int j) [0..<?L]"
  from fill_leaves_all [OF n0 ne enc]
  obtain cur leaf lns t1 where
    r: "fill_leaves es 0 (- 1) BPTreeNode_new [] t = Inr (cur, leaf, lns, t1)"
    and cur: "cur \<noteq> - 1"
    and ids: "lns @ [cur] = ?ids"
    and nx: "next_node_id (snd (writeNode t1 cur leaf)) = ?n0 + int ?L"
    and lv: "\<forall>j<?L. \<exists>nd. nodes (snd (writeNode t1 cur leaf)) (?n0 + int j) = Some nd
           \<and> holds_entries nd (chunk order es ! j) \<and> next_leaf nd = - 1"
    by blast
  let ?t2 = "snd (writeNode t1 cur leaf)"
  let ?t3 = "link_leaves ?t2 ?ids"
  have pre: "\<forall>j. 0 \<le> j \<and> j < ?L \<longrightarrow> nodes ?t2 (?n0 + int j) \<noteq> None"
    using lv by auto
  note link = link_leaves_upt [OF n0 pre]
  have b: "bulkLoad t es =
      (case build_levels (link_leaves ?t2 (lns @ [cur])) (lns @ [cur]) of
         Inl e \<Rightarrow> Inl e
       | Inr (roots, t4) \<Rightarrow> Inr (True, if roots \<noteq> [] then t4\<lparr> root_id := hd roots \<rparr> else t4))"
    using ne r cur by (simp add: bulkLoad_def sorted)
  have level: "leaf_level ?t3 ?n0 (chunk order es)"
    unfolding leaf_level_def
  proof (intro allI impI)
    fix j
    assume j: "j < ?L"
    then obtain nd where nd: "nodes ?t2 (?n0 + int j) = Some nd" "holds_entries nd (chunk order es ! j)"
        "next_leaf nd = - 1"
      using lv by blast
    have v: "nodes ?t3 (?n0 + int j) =
        (if \<exists>j'. 0 \<le> j' \<and> j' + 1 < ?L \<and> ?n0 + int j = ?n0 + int j'
         then map_option (\<lambda>nd. nd\<lparr> next_leaf := ?n0 + int j + 1 \<rparr>) (nodes ?t2 (?n0 + int j))
         else nodes ?t2 (?n0 + int j))"
      using link by blast
    show "\<exists>nd. nodes ?t3 (?n0 + int j) = Some nd \<and> holds_entries nd (chunk order es ! j)
        \<and> next_leaf nd = (if j + 1 < ?L then ?n0 + int j + 1 else - 1)"
    proof (cases "j + 1 < ?L")
      case True
      then have "\<exists>j'. 0 \<le> j' \<and> j' + 1 < ?L \<and> ?n0 + int j = ?n0 + int j'"
        by auto
      then have "nodes ?t3 (?n0 + int j) = Some (nd\<lparr> next_leaf := ?n0 + int j + 1 \<rparr>)"
        using v nd(1) by simp
      then show ?thesis
        using True nd(2) by simp
    next
      case False
      then have "\<not> (\<exists>j'. 0 \<le> j' \<and> j' + 1 < ?L \<and> ?n0 + int j = ?n0 + int j')"
        by auto
      then have "nodes ?t3 (?n0 + int j) = Some nd"
        using v nd(1) by simp
      then show ?thesis
        using False nd(2,3) by simp
    qed
  qed
  have nx3: "next_node_id ?t3 = ?n0 + int ?L"
    using link nx by simp
  show ?thesis
    using level nx3 b unfolding ids by blast
qed

subsection \<open>Two levels of parents\<close>

declare build_levels.simps [simp del]

lemma chunk_two:
  assumes "n < length xs" and "length xs \<le> 2 * n"
  shows "chunk n xs = [take n xs, drop n xs]"
proof -
  have n: "0 < n"
    using assms by (cases n) auto
  have "xs \<noteq> []"
    using assms by auto
  then have "chunk n xs = take n xs # chunk n (drop n xs)"
    using n by (rule chunk_step)
  moreover have "drop n xs \<noteq> []"
    using assms by simp
  then have "chunk n (drop n xs) = take n (drop n xs) # chunk n (drop n (drop n xs))"
    using n by (rule chunk_step)
  moreover have "take n (drop n xs) = drop n xs" and "drop n (drop n xs) = []"
    using assms by simp_all
  ultimately show ?thesis
    by simp
qed

lemma chunk_one:
  assumes "xs \<noteq> []" and "length xs \<le> n"
  shows "chunk n xs = [xs]"
proof -
  have n: "0 < n"
    using assms by (cases n) auto
  have "chunk n xs = take n xs # chunk n (drop n xs)"
    using assms(1) n by (rule chunk_step)
  then show ?thesis
    using assms by simp
qed

lemma build_levels_two:
  fixes t :: "'k::zero BPTree"
  assumes n: "0 \<le> next_node_id t" and ids: "\<forall>node_id \<in> set ids. node_id < next_node_id t"
    and l1: "order < length ids" and l2: "length ids \<le> 2 * order"
  shows "\<exists>t' p0 p1 r. build_levels t ids = Inr ([next_node_id t + 2], t')
     \<and> nodes t' (next_node_id t) = Some p0 \<and> internal_over t p0 (take order ids)
     \<and> nodes t' (next_node_id t + 1) = Some p1 \<and> internal_over t p1 (drop order ids)
     \<and> nodes t' (next_node_id t + 2) = Some r
     \<and> \<not> is_leaf r \<and> num_keys r = 1 \<and> keys r 0 = keys p1 0
     \<and> children r 0 = next_node_id t \<and> children r 1 = next_node_id t + 1
     \<and> (\<forall>node_id. node_id < next_node_id t \<longrightarrow> nodes t' node_id = nodes t node_id)"
proof -
  let ?next = "next_node_id t"
  have c1: "chunk order ids = [take order ids, drop order ids]"
    using l1 l2 by (rule chunk_two)
  have m1: "map (\<lambda>g. ?next + int g) [0..<length (chunk order ids)] = [?next, ?next + 1]"
    unfolding c1 by (simp add: upt_rec)
  from build_level_chunks [OF n ids, of "[]"]
  obtain t1 where
    b1: "build_level t ids [] = Inr ([?next, ?next + 1], t1)"
    and nx1: "next_node_id t1 = ?next + 2"
    and fr1: "\<forall>node_id. node_id < ?next \<longrightarrow> nodes t1 node_id = nodes t node_id"
    and nw1: "\<forall>g<length (chunk order ids). \<exists>p. nodes t1 (?next + int g) = Some p
            \<and> internal_over t p (chunk order ids ! g)"
    unfolding m1 by (auto simp: c1)
  obtain p0 where p0: "nodes t1 ?next = Some p0" "internal_over t p0 (take order ids)"
    using nw1 [rule_format, of 0] by (auto simp: c1)
  obtain p1 where p1: "nodes t1 (?next + 1) = Some p1" "internal_over t p1 (drop order ids)"
    using nw1 [rule_format, of 1] by (auto simp: c1)
  let ?ids1 = "[?next, ?next + 1]"
  have n1: "0 \<le> next_node_id t1"
    using nx1 n by simp
  have ids1: "\<forall>node_id \<in> set ?ids1. node_id < next_node_id t1"
    using nx1 by simp
  have c2: "chunk order ?ids1 = [?ids1]"
    by (rule chunk_one) (simp_all add: order_101)
  have m2: "map (\<lambda>g. next_node_id t1 + int g) [0..<length (chunk order ?ids1)] = [?next + 2]"
    unfolding c2 using nx1 by simp
  from build_level_chunks [OF n1 ids1, of "[]"]
  obtain t2 where
    b2: "build_level t1 ?ids1 [] = Inr ([?next + 2], t2)"
    and fr2: "\<forall>node_id. node_id < next_node_id t1 \<longrightarrow> nodes t2 node_id = nodes t1 node_id"
    and nw2: "\<forall>g<length (chunk order ?ids1). \<exists>p. nodes t2 (next_node_id t1 + int g) = Some p
            \<and> internal_over t1 p (chunk order ?ids1 ! g)"
    unfolding m2 by auto
  obtain r where r: "nodes t2 (?next + 2) = Some r" "internal_over t1 r ?ids1"
    using nw2 [rule_format, of 0] nx1 by (auto simp: c2)
  have s1: "build_levels t ids = build_levels t1 ?ids1"
    using l1 b1 by (subst build_levels.simps) (simp add: order_101)
  have s2: "build_levels t1 ?ids1 = build_levels t2 [?next + 2]"
    using b2 by (subst build_levels.simps) simp
  have s3: "build_levels t2 [?next + 2] = Inr ([?next + 2], t2)"
    by (subst build_levels.simps) simp
  have rd: "readNode t1 (?next + 1) = Some p1"
    using p1(1) n by (simp add: readNode_def)
  have rk: "keys r 0 = keys p1 0"
    using r(2) rd by (simp add: internal_over_def first_key_def)
  show ?thesis
  proof (rule exI [of _ t2], rule exI [of _ p0], rule exI [of _ p1], rule exI [of _ r],
      intro conjI allI impI)
    show "build_levels t ids = Inr ([?next + 2], t2)"
      using s1 s2 s3 by simp
    show "nodes t2 ?next = Some p0"
      using fr2 nx1 p0(1) by simp
    show "internal_over t p0 (take order ids)"
      by (rule p0(2))
    show "nodes t2 (?next + 1) = Some p1"
      using fr2 nx1 p1(1) by simp
    show "internal_over t p1 (drop order ids)"
      by (rule p1(2))
    show "nodes t2 (?next + 2) = Some r"
      by (rule r(1))
    show "\<not> is_leaf r"
      using r(2) by (simp add: internal_over_def)
    show "num_keys r = 1"
      using r(2) by (simp add: internal_over_def)
    show "children r 0 = ?next"
      using r(2) by (simp add: internal_over_def)
    show "children r 1 = ?next + 1"
      using r(2) by (simp add: internal_over_def)
    show "keys r 0 = keys p1 0"
      by (rule rk)
    show "nodes t2 node_id = nodes t node_id" if "node_id < ?next" for node_id
      using fr1 fr2 nx1 that by simp
  qed
qed

subsection \<open>The index over 10202 ascending keys\<close>

lemma ascending_length: "length ascending_10202 = 10202"
  by (simp add: ascending_10202_def)

lemma ascending_nth:
  "i < 10202 \<Longrightarrow> ascending_10202 ! i = (int i + 1, RecordPointer (int (i div 92)) (int (i mod 92)))"
  by (simp add: ascending_10202_def del: upt_rec_numeral)

lemma ascending_encodable: "\<forall>e \<in> set ascending_10202. encodable (snd e)"
proof
  fix e
  assume "e \<in> set ascending_10202"
  then obtain i where i: "i < 10202" and e: "e = ascending_10202 ! i"
    by (metis in_set_conv_nth ascending_length)
  have d: "i div 92 \<le> i"
    by simp
  have m: "i mod 92 < 92"
    by simp
  have "int (i div 92) < 10202" and "int (i mod 92) < 92" and "0 \<le> int (i div 92)" and "0 \<le> int (i mod 92)"
    using i d m by linarith+
  then show "encodable (snd e)"
    unfolding e ascending_nth [OF i] by (simp add: encodable_def enc_def int_in_range_def)
qed

lemma ascending_sorted: "sort_entries ascending_10202 = ascending_10202"
proof -
  let ?f = "\<lambda>i. (int i + 1, int (i div 92), int (i mod 92))"
  have "sorted (map ?f [0..<10202])"
    unfolding sorted_map
  proof (rule sorted_wrt_mono_rel [of _ "(\<le>)"])
    show "sorted [0..<10202::nat]"
      by (rule sorted_upt)
    fix x y :: nat
    assume "x \<le> y"
    then show "?f x \<le> ?f y"
      by (cases "x = y") (auto simp: less_eq_prod_def)
  qed
  then have "sorted (map (\<lambda>(k, p). (k, block_id p, record_index p)) ascending_10202)"
    by (simp add: ascending_10202_def o_def del: upt_rec_numeral)
  then show ?thesis
    unfolding sort_entries_def by (rule sort_key_id_if_sorted)
qed


lemma open_new_next: "next_node_id (BPTree_open_new :: int BPTree) = 1"
  by (simp add: BPTree_open_new_def BPTree_new_def createNode_def writeNode_def Let_def)

lemma ascending_chunk_count: "length (chunk order ascending_10202) = 102"
  by (simp add: chunk_length order_101 ascending_length)

lemma ascending_first_chunk: "chunk order ascending_10202 ! 0 = take 101 ascending_10202"
proof -
  have "0 < order"
    by (simp add: order_101)
  moreover have "0 < length (chunk order ascending_10202)"
    unfolding ascending_chunk_count by simp
  ultimately have "chunk order ascending_10202 ! 0 = take order (drop (0 * order) ascending_10202)"
    by (rule chunk_nth)
  then show ?thesis
    by (simp add: order_101)
qed

lemma ascending_last_chunk: "chunk order ascending_10202 ! 101 = [(10202, RecordPointer 110 81)]"
proof -
  have "0 < order"
    by (simp add: order_101)
  moreover have "101 < length (chunk order ascending_10202)"
    unfolding ascending_chunk_count by simp
  ultimately have "chunk order ascending_10202 ! 101 = take order (drop (101 * order) ascending_10202)"
    by (rule chunk_nth)
  then have "chunk order ascending_10202 ! 101 = take 101 (drop 10201 ascending_10202)"
    by (simp add: order_101)
  also have "drop 10201 ascending_10202 = ascending_10202 ! 10201 # drop (Suc 10201) ascending_10202"
    by (rule Cons_nth_drop_Suc [symmetric]) (simp add: ascending_length)
  also have "drop (Suc 10201) ascending_10202 = []"
    by (simp add: ascending_length)
  also have "ascending_10202 ! 10201 = (10202, RecordPointer 110 81)"
    by (simp add: ascending_nth)
  finally show ?thesis
    by simp
qed

lemma ascending_bulk_loaded:
  "\<exists>t r p0 p1 l0 l1. bulkLoad BPTree_open_new ascending_10202 = Inr (True, t)
     \<and> root_id t = 105 \<and> nodes t 105 = Some r
     \<and> \<not> is_leaf r \<and> num_keys r = 1 \<and> keys r 0 = 0 \<and> children r 0 = 103 \<and> children r 1 = 104
     \<and> nodes t 103 = Some p0 \<and> \<not> is_leaf p0 \<and> children p0 0 = 1
     \<and> nodes t 104 = Some p1 \<and> \<not> is_leaf p1 \<and> num_keys p1 = 0 \<and> children p1 0 = 102
     \<and> nodes t 1 = Some l0 \<and> is_leaf l0 \<and> num_keys l0 = 101 \<and> keys l0 0 = 1
     \<and> nodes t 102 = Some l1 \<and> is_leaf l1 \<and> num_keys l1 = 1 \<and> keys l1 0 = 10202
     \<and> children l1 0 = 1100081 \<and> next_leaf l1 = - 1"
proof -
  let ?fresh = "BPTree_open_new :: int BPTree"
  let ?es = "ascending_10202"
  let ?ids = "map (\<lambda>j. 1 + int j) [0..<102]"
  have ne: "?es \<noteq> []"
    using ascending_length by auto
  have n0: "0 \<le> next_node_id ?fresh"
    by (simp add: open_new_next)
  from bulkLoad_leaves [OF n0 ne ascending_encodable ascending_sorted]
  obtain t3 where lv: "leaf_level t3 1 (chunk order ?es)"
    and nx: "next_node_id t3 = 103"
    and b: "bulkLoad ?fresh ?es =
         (case build_levels t3 ?ids of
            Inl e \<Rightarrow> Inl e
          | Inr (roots, t4) \<Rightarrow> Inr (True, if roots \<noteq> [] then t4\<lparr> root_id := hd roots \<rparr> else t4))"
    unfolding open_new_next ascending_chunk_count by auto
  have n3: "0 \<le> next_node_id t3"
    using nx by simp
  have ids: "\<forall>node_id \<in> set ?ids. node_id < next_node_id t3"
    unfolding nx by (auto simp del: upt_rec_numeral)
  have l1: "order < length ?ids" and l2: "length ?ids \<le> 2 * order"
    by (simp_all add: order_101)
  from build_levels_two [OF n3 ids l1 l2]
  obtain t' p0 p1 r where
    bl: "build_levels t3 ?ids = Inr ([105], t')"
    and p0: "nodes t' 103 = Some p0" "internal_over t3 p0 (take order ?ids)"
    and p1: "nodes t' 104 = Some p1" "internal_over t3 p1 (drop order ?ids)"
    and r: "nodes t' 105 = Some r" "\<not> is_leaf r" "num_keys r = 1" "keys r 0 = keys p1 0"
      "children r 0 = 103" "children r 1 = 104"
    and fr: "\<forall>node_id. node_id < 103 \<longrightarrow> nodes t' node_id = nodes t3 node_id"
    unfolding nx by auto
  have tk: "take order ?ids ! 0 = 1" and tl: "0 < length (take order ?ids)"
    by (simp_all add: order_101 del: upt_rec_numeral)
  have dr: "drop order ?ids = [102]"
    by (simp add: order_101 drop_map)
  have q0: "\<not> is_leaf p0" "children p0 0 = 1"
    using p0(2) tk tl by (simp_all add: internal_over_def)
  have q1: "\<not> is_leaf p1" "num_keys p1 = 0" "children p1 0 = 102" "keys p1 0 = 0"
    using p1(2) unfolding dr by (simp_all add: internal_over_def)
  obtain l0 where l0: "nodes t3 1 = Some l0" "holds_entries l0 (take 101 ?es)"
    using lv [unfolded leaf_level_def, rule_format, of 0]
    by (auto simp: ascending_chunk_count ascending_first_chunk)
  obtain l1 where l1: "nodes t3 102 = Some l1" "holds_entries l1 [(10202, RecordPointer 110 81)]"
      "next_leaf l1 = - 1"
    using lv [unfolded leaf_level_def, rule_format, of 101]
    by (auto simp: ascending_chunk_count ascending_last_chunk)
  have k0: "is_leaf l0" "num_keys l0 = 101" "keys l0 0 = 1"
    using l0(2) by (simp_all add: holds_entries_def ascending_length ascending_nth)
  have k1: "is_leaf l1" "num_keys l1 = 1" "keys l1 0 = 10202" "children l1 0 = 1100081"
    using l1(2) by (simp_all add: holds_entries_def enc_def)
  let ?final = "t'\<lparr> root_id := 105 \<rparr>"
  have res: "bulkLoad ?fresh ?es = Inr (True, ?final)"
    using b bl by simp
  have f0: "nodes ?final 1 = Some l0" and f1: "nodes ?final 102 = Some l1"
    using fr l0(1) l1(1) by simp_all
  show ?thesis
    apply (rule exI [of _ ?final], rule exI [of _ r], rule exI [of _ p0], rule exI [of _ p1],
        rule exI [of _ l0], rule exI [of _ l1])
    using res r p0(1) p1(1) q0 q1 f0 f1 k0 k1 l1(3) by simp
qed

lemma findLeaf_loop_at_leaf:
  "readNode t c = Some n \<Longrightarrow> is_leaf n \<Longrightarrow> findLeaf_loop t key c = Some (Inr c)"
  by (subst findLeaf_loop.simps) simp

lemma findLeaf_loop_descend:
  "readNode t c = Some n \<Longrightarrow> \<not> is_leaf n \<Longrightarrow> child_index n key 0 = Inr i \<Longrightarrow>
     get_child n i = Inr c' \<Longrightarrow> findLeaf_loop t key c = findLeaf_loop t key c'"
  by (subst findLeaf_loop.simps) simp

lemma findLeaf_one:
  assumes root: "root_id t = 105" "nodes t 105 = Some r"
      "\<not> is_leaf r" "num_keys r = 1" "keys r 0 = 0" "children r 1 = 104"
    and p1: "nodes t 104 = Some p1" "\<not> is_leaf p1" "num_keys p1 = 0" "children p1 0 = 102"
    and l1: "nodes t 102 = Some l1" "is_leaf l1"
  shows "findLeaf t (1::int) = Some (Inr 102)"
proof -
  have rd: "readNode t 105 = Some r" "readNode t 104 = Some p1" "readNode t 102 = Some l1"
    using root(2) p1(1) l1(1) by (simp_all add: readNode_def)
  have ci_r: "child_index r 1 0 = Inr 1"
    using root(4,5)
    by (subst child_index.simps, subst child_index.simps) (simp add: get_key_def MAX_KEYS_def)
  have ci_p1: "child_index p1 1 0 = Inr 0"
    using p1(3) by (subst child_index.simps) simp
  have "findLeaf_loop t 1 105 = findLeaf_loop t 1 104"
    using rd(1) root(3) ci_r
    by (rule findLeaf_loop_descend) (use root(6) in \<open>simp add: get_child_def MAX_KEYS_def\<close>)
  also have "\<dots> = findLeaf_loop t 1 102"
    using rd(2) p1(2) ci_p1
    by (rule findLeaf_loop_descend) (use p1(4) in \<open>simp add: get_child_def MAX_KEYS_def\<close>)
  also have "\<dots> = Some (Inr 102)"
    using rd(3) l1(2) by (rule findLeaf_loop_at_leaf)
  finally show ?thesis
    using root(1) by (simp add: findLeaf_def)
qed

text \<open>
  Claim C3. The 10202 entries with the keys 1..10202 are bulk-loaded into a freshly opened
  index. The 102 leaves get two parents, the second of them with one child and no key, and
  the root takes \<open>keys[0]\<close> of that parent as its separator: the value 0 that the constructor
  of the node left there. The subtree under \<open>children[0]\<close> of the root begins with the key 1,
  which is not below the separator 0, and \<open>search(1)\<close> descends to the last leaf and
  returns nothing.
\<close>

theorem bulkLoad_upper_separator_wrong:
  "case bulkLoad BPTree_open_new ascending_10202 of
     Inl e \<Rightarrow> False
   | Inr (ok, t) \<Rightarrow>
       ok
       \<and> (case readNode t (root_id t) of
             None \<Rightarrow> False
           | Some root_node \<Rightarrow>
               \<not> is_leaf root_node \<and> num_keys root_node = 1 \<and> keys root_node 0 = 0
               \<and> (case readNode t (children root_node 0) of
                     None \<Rightarrow> False
                   | Some inner \<Rightarrow>
                       \<not> is_leaf inner
                       \<and> (case readNode t (children inner 0) of
                             None \<Rightarrow> False
                           | Some leaf \<Rightarrow> is_leaf leaf \<and> num_keys leaf = 101 \<and> keys leaf 0 = 1)))
       \<and> BPTree_search t 1 = Some (Inr [])"
proof -
  from ascending_bulk_loaded obtain t r p0 p1 l0 l1 where
    res: "bulkLoad BPTree_open_new ascending_10202 = Inr (True, t)"
    and root: "root_id t = 105" "nodes t 105 = Some r"
      "\<not> is_leaf r" "num_keys r = 1" "keys r 0 = 0" "children r 0 = 103" "children r 1 = 104"
    and p0: "nodes t 103 = Some p0" "\<not> is_leaf p0" "children p0 0 = 1"
    and p1: "nodes t 104 = Some p1" "\<not> is_leaf p1" "num_keys p1 = 0" "children p1 0 = 102"
    and l0: "nodes t 1 = Some l0" "is_leaf l0" "num_keys l0 = 101" "keys l0 0 = 1"
    and l1: "nodes t 102 = Some l1" "is_leaf l1" "num_keys l1 = 1" "keys l1 0 = 10202"
      "children l1 0 = 1100081" "next_leaf l1 = - 1"
    by blast
  have rd: "readNode t 105 = Some r" "readNode t 103 = Some p0" "readNode t 1 = Some l0"
      "readNode t 102 = Some l1"
    using root(2) p0(1) l0(1) l1(1) by (simp_all add: readNode_def)
  have fl: "findLeaf t 1 = Some (Inr 102)"
    using root(1-5,7) p1 l1(1,2) by (rule findLeaf_one)
  have ce: "collect_equal l1 1 0 [] = Inr []"
    using l1(3,4)
    by (subst collect_equal.simps, subst collect_equal.simps) (simp add: get_key_def MAX_KEYS_def)
  have s: "BPTree_search t 1 = Some (Inr [])"
    using fl rd(4) ce by (simp add: BPTree_search_def)
  show ?thesis
    using res root rd p0 l0 s by simp
qed


lemma ascending_keys_in_range: "list_all (\<lambda>(k, p). 1 \<le> k \<and> k \<le> 10202) ascending_10202"
  unfolding list_all_iff
proof
  fix e
  assume "e \<in> set ascending_10202"
  then obtain i where i: "i < 10202" and e: "e = ascending_10202 ! i"
    by (metis in_set_conv_nth ascending_length)
  show "case e of (k, p) \<Rightarrow> 1 \<le> k \<and> k \<le> 10202"
    unfolding e ascending_nth [OF i] using i by simp
qed

text \<open>
  Claim C5. After the same bulk load the interval \<open>[1, 10202]\<close> contains the keys of all
  10202 entries, and \<open>rangeSearch(1, 10202)\<close> returns one pointer, that of the key 10202:
  the descent for the key 1 ends in the last leaf.
\<close>

theorem rangeSearch_after_bulkLoad_misses_keys:
  "case bulkLoad BPTree_open_new ascending_10202 of
     Inl e \<Rightarrow> False
   | Inr (ok, t) \<Rightarrow>
       ok \<and> length ascending_10202 = 10202
       \<and> list_all (\<lambda>(k, p). 1 \<le> k \<and> k \<le> 10202) ascending_10202
       \<and> rangeSearch t 1 10202 = Some (Inr [RecordPointer 110 81])"
proof -
  from ascending_bulk_loaded obtain t r p0 p1 l0 l1 where
    res: "bulkLoad BPTree_open_new ascending_10202 = Inr (True, t)"
    and root: "root_id t = 105" "nodes t 105 = Some r"
      "\<not> is_leaf r" "num_keys r = 1" "keys r 0 = 0" "children r 1 = 104"
    and p1: "nodes t 104 = Some p1" "\<not> is_leaf p1" "num_keys p1 = 0" "children p1 0 = 102"
    and l1: "nodes t 102 = Some l1" "is_leaf l1" "num_keys l1 = 1" "keys l1 0 = 10202"
      "children l1 0 = 1100081" "next_leaf l1 = - 1"
    by blast
  have fl: "findLeaf t 1 = Some (Inr 102)"
    using root p1 l1(1,2) by (rule findLeaf_one)
  have rd: "readNode t 102 = Some l1"
    using l1(1) by (simp add: readNode_def)
  have dp: "decode_ptr 1100081 = RecordPointer 110 81"
    by (simp add: decode_ptr_def signed_divide_int_def signed_modulo_int_def)
  have cr: "collect_in_range l1 1 10202 0 [] = Inr [RecordPointer 110 81]"
    using l1(3,4,5) dp
    by (subst collect_in_range.simps, subst collect_in_range.simps)
      (simp add: get_key_def get_child_def MAX_KEYS_def)
  have lk: "last_key l1 = Inr 10202"
    using l1(3,4) by (simp add: last_key_def get_key_def MAX_KEYS_def)
  have stop: "rangeSearch_loop t 1 10202 (- 1) [RecordPointer 110 81] = Some (Inr [RecordPointer 110 81])"
    by (subst rangeSearch_loop.simps) simp
  have "rangeSearch_loop t 1 10202 102 [] = Some (Inr [RecordPointer 110 81])"
    using rd cr lk l1(6) stop by (subst rangeSearch_loop.simps) simp
  then have "rangeSearch t 1 10202 = Some (Inr [RecordPointer 110 81])"
    using fl by (simp add: rangeSearch_def)
  then show ?thesis
    using res ascending_length ascending_keys_in_range by simp
qed

end
